theory Spec2Isabelle
  imports Main "HOL-Library.Multiset" "HOL-Library.Sublist"
begin

section \<open>tsp_search_dynamic.c: data\<close>

text \<open>
  The file \<^verbatim>\<open>src/tsp_search_dynamic.c\<close> is a multi-threaded branch-and-bound search
  for the travelling salesman problem. Cities and weights are C \<^verbatim>\<open>int\<close>s, of 32 bits.
\<close>

type_synonym city_t = int
type_synonym weight_t = int

definition INFINITY :: weight_t where
  "INFINITY = 1000000"

definition NO_CITY :: city_t where
  "NO_CITY = - 1"

text \<open>
  The program adds weights with \<^verbatim>\<open>+\<close> and \<^verbatim>\<open>+=\<close> on \<^verbatim>\<open>int\<close>. \<open>int_add a b\<close> is the sum the
  machine delivers: \<open>a + b\<close> when that is an \<^verbatim>\<open>int\<close>, and otherwise the sum reduced modulo
  4294967296 into the range of \<^verbatim>\<open>int\<close> (two's complement; C leaves the overflow undefined,
  the compiled program wraps). Counters and array indices are computed exactly.
\<close>

definition INT_MAX :: int where
  "INT_MAX = 2147483647"

definition INT_MIN :: int where
  "INT_MIN = - 2147483648"

definition in_int :: "int \<Rightarrow> bool" where
  "in_int x = (INT_MIN \<le> x \<and> x \<le> INT_MAX)"

definition int_add :: "int \<Rightarrow> int \<Rightarrow> int" where
  "int_add a b = (a + b - INT_MIN) mod 4294967296 + INT_MIN"

text \<open>
  \<^verbatim>\<open>typedef struct { city_t* cities; int count; weight_t cost; } tour_t;\<close>
  The array behind \<^verbatim>\<open>cities\<close> is owned by its tour alone (every push duplicates the
  tour), so it is modelled by value, as the list of its cells.
\<close>

record tour_t =
  cities :: "city_t list"
  count :: int
  cost :: weight_t

text \<open>
  \<^verbatim>\<open>typedef struct stack_struct { tour_t* tour_p; city_t city; weight_t cost; } stack_elt_t;\<close>
\<close>

record stack_elt_t =
  elt_tour_p :: tour_t
  elt_city :: city_t
  elt_cost :: weight_t

text \<open>The cost matrix \<^verbatim>\<open>mat\<close> is a flat row-major array; \<^verbatim>\<open>mat[k]\<close> reads cell \<open>k\<close>.\<close>

definition mat_at :: "weight_t list \<Rightarrow> int \<Rightarrow> weight_t" where
  "mat_at mat k = mat ! nat k"

section \<open>Tours\<close>

text \<open>
  \<^verbatim>\<open>Initialize_tour\<close>: an array of \<open>n + 1\<close> cells, all \<^verbatim>\<open>NO_CITY\<close>, cost and count 0.
\<close>

definition Initialize_tour :: "int \<Rightarrow> tour_t" where
  "Initialize_tour n = \<lparr>cities = replicate (nat (n + 1)) NO_CITY, count = 0, cost = 0\<rparr>"

text \<open>
  \<^verbatim>\<open>Visited\<close>: the loop \<^verbatim>\<open>for (i = 0; i < tour_p->count; i++) if (cities[i] == nbr) return TRUE;\<close>
  with the loop counter as an argument.
\<close>

function Visited_from :: "int \<Rightarrow> city_t \<Rightarrow> tour_t \<Rightarrow> bool" where
  "Visited_from i nbr tour_p =
     (if i < count tour_p
      then (if cities tour_p ! nat i = nbr then True else Visited_from (i + 1) nbr tour_p)
      else False)"
  by pat_completeness auto
termination
  by (relation "measure (\<lambda>(i, nbr, tour_p). nat (count tour_p - i))") auto

definition Visited :: "city_t \<Rightarrow> tour_t \<Rightarrow> bool" where
  "Visited nbr tour_p = Visited_from 0 nbr tour_p"

text \<open>
  \<^verbatim>\<open>Feasible\<close> takes the current city, the candidate, the partial tour and the worker's
  own \<^verbatim>\<open>local_best\<close>; of the globals it reads only \<^verbatim>\<open>n\<close> and \<^verbatim>\<open>mat\<close>, which no thread
  writes after start-up. It returns a truth value and writes nothing.
\<close>

definition Feasible :: "int \<Rightarrow> weight_t list \<Rightarrow> city_t \<Rightarrow> city_t \<Rightarrow> tour_t \<Rightarrow> tour_t \<Rightarrow> bool" where
  "Feasible n mat cty nbr tour_p local_best_p =
     (if \<not> Visited nbr tour_p \<and>
         int_add (cost tour_p) (mat_at mat (n * cty + nbr)) < cost local_best_p
      then True else False)"

text \<open>
  \<^verbatim>\<open>Dup_tour\<close>: a fresh array of \<open>n\<close> cells, filled from the first \<open>n\<close> cells of the
  original.
\<close>

definition Dup_tour :: "int \<Rightarrow> tour_t \<Rightarrow> tour_t" where
  "Dup_tour n tour_p =
     \<lparr>cities = map (\<lambda>i. cities tour_p ! i) [0..<nat n], count = count tour_p, cost = cost tour_p\<rparr>"

section \<open>The shared best tour\<close>

text \<open>
  The copy loop of \<^verbatim>\<open>Check_best_tour\<close>:
  \<^verbatim>\<open>for (i = 0; i < tour_p->count; i++) best_tour.cities[i] = tour_p->cities[i];\<close>
\<close>

function copy_cities :: "int \<Rightarrow> tour_t \<Rightarrow> city_t list \<Rightarrow> city_t list" where
  "copy_cities i tour_p dst =
     (if i < count tour_p
      then copy_cities (i + 1) tour_p (dst[nat i := cities tour_p ! nat i])
      else dst)"
  by pat_completeness auto
termination
  by (relation "measure (\<lambda>(i, tour_p, dst). nat (count tour_p - i))") auto

text \<open>
  \<^verbatim>\<open>Check_best_tour(city, tour_p, local_best_p)\<close> runs with \<^verbatim>\<open>best_tour_mutex\<close> held, so it
  is one atomic step on the global \<^verbatim>\<open>best_tour\<close> and the caller's \<^verbatim>\<open>local_best\<close>; the model
  returns both.
\<close>

definition Check_best_tour ::
    "int \<Rightarrow> weight_t list \<Rightarrow> city_t \<Rightarrow> tour_t \<Rightarrow> tour_t \<times> tour_t \<Rightarrow> tour_t \<times> tour_t" where
  "Check_best_tour n mat cty tour_p st =
     (case st of (best_tour, local_best) \<Rightarrow>
        if int_add (cost tour_p) (mat_at mat (cty * n + 0)) < cost best_tour
        then
          (let best_tour' =
                 \<lparr>cities = (copy_cities 0 tour_p (cities best_tour))[nat n := 0],
                  count = n + 1,
                  cost = int_add (cost tour_p) (mat_at mat (cty * n + 0))\<rparr>
           in (best_tour', local_best\<lparr>cost := cost best_tour'\<rparr>))
        else (best_tour, local_best))"

text \<open>\<^verbatim>\<open>main\<close> starts the search from \<^verbatim>\<open>Initialize_tour(&best_tour); best_tour.cost = INFINITY;\<close>\<close>

definition initial_best_tour :: "int \<Rightarrow> tour_t" where
  "initial_best_tour n = (Initialize_tour n)\<lparr>cost := INFINITY\<rparr>"

section \<open>The work stack\<close>

text \<open>
  A worker's stack is the three locals of \<^verbatim>\<open>Search\<close>: the array \<^verbatim>\<open>stack\<close> of pointers to
  stack elements, \<^verbatim>\<open>top\<close> and \<^verbatim>\<open>size\<close>. A slot is \<open>Some e\<close> when it points to the live
  element \<open>e\<close> and \<open>None\<close> when it is \<^verbatim>\<open>NULL\<close>, not yet written, or points to an element
  that was freed. A \<^verbatim>\<open>NULL\<close> array pointer is the array with no slot.
\<close>

record stack_vars =
  stk :: "stack_elt_t option list"
  stk_top :: int
  stk_size :: int

definition malloc_slots :: "int \<Rightarrow> stack_elt_t option list" where
  "malloc_slots k = replicate (nat k) None"

definition realloc_slots :: "stack_elt_t option list \<Rightarrow> int \<Rightarrow> stack_elt_t option list" where
  "realloc_slots arr k = take (nat k) (arr @ replicate (nat k) None)"

definition Empty :: "int \<Rightarrow> bool" where
  "Empty tp = (if tp = 0 then True else False)"

text \<open>
  \<^verbatim>\<open>Push\<close>: double the array when it is full, then store a new element that holds a
  duplicate of the tour.
\<close>

definition Push :: "int \<Rightarrow> tour_t \<Rightarrow> city_t \<Rightarrow> weight_t \<Rightarrow> stack_vars \<Rightarrow> stack_vars" where
  "Push n tour_p cty cst s =
     (let s1 = (if stk_top s = stk_size s
                then s\<lparr>stk := realloc_slots (stk s) (stk_size s * 2), stk_size := stk_size s * 2\<rparr>
                else s)
      in s1\<lparr>stk := (stk s1)[nat (stk_top s1) :=
                      Some \<lparr>elt_tour_p = Dup_tour n tour_p, elt_city = cty, elt_cost = cst\<rparr>],
             stk_top := stk_top s1 + 1\<rparr>)"

text \<open>
  \<^verbatim>\<open>Pop\<close>: \<^verbatim>\<open>stack[--*top_p]\<close> is read and its element freed. A read outside the array or
  through a slot that holds no live element is undefined in C; the model returns \<open>None\<close>.
\<close>

definition Pop :: "stack_vars \<Rightarrow> (tour_t \<times> city_t \<times> weight_t \<times> stack_vars) option" where
  "Pop s =
     (let tp = stk_top s - 1 in
      if 0 \<le> tp \<and> nat tp < length (stk s)
      then (case stk s ! nat tp of
              None \<Rightarrow> None
            | Some e \<Rightarrow>
                Some (elt_tour_p e, elt_city e, elt_cost e,
                      s\<lparr>stk := (stk s)[nat tp := None], stk_top := tp\<rparr>))
      else None)"

section \<open>Termination detection and stack splitting\<close>

text \<open>
  The globals guarded by \<^verbatim>\<open>terminated_mutex\<close>. They are zero-initialised:
  no thread waits and \<^verbatim>\<open>new_stack\<close> is \<^verbatim>\<open>NULL\<close>.
\<close>

record term_globals =
  threads_in_cond_wait :: int
  new_stack :: "stack_elt_t option list option"
  new_stack_size :: int
  new_stack_top :: int

definition initial_globals :: term_globals where
  "initial_globals =
     \<lparr>threads_in_cond_wait = 0, new_stack = None, new_stack_size = 0, new_stack_top = 0\<rparr>"

text \<open>
  The first loop of \<^verbatim>\<open>Split_stack\<close>:
  \<^verbatim>\<open>for (i = 1; i < *top_p; i += 2) { new_stack[new_stack_top] = my_stack[i]; my_stack[i] = NULL; new_stack_top++; }\<close>
\<close>

function split_move ::
    "int \<Rightarrow> int \<Rightarrow> stack_elt_t option list \<times> stack_elt_t option list \<times> int \<Rightarrow>
     stack_elt_t option list \<times> stack_elt_t option list \<times> int" where
  "split_move i tp st =
     (case st of (my_stack, new_stk, new_top) \<Rightarrow>
        if i < tp
        then split_move (i + 2) tp
               (my_stack[nat i := None], new_stk[nat new_top := my_stack ! nat i], new_top + 1)
        else (my_stack, new_stk, new_top))"
  by pat_completeness auto
termination
  by (relation "measure (\<lambda>(i, tp, st). nat (tp - i))") auto

text \<open>
  The second loop:
  \<^verbatim>\<open>i = 1; for (k = 2; k < *top_p; k += 2) { my_stack[i] = my_stack[k]; i++; }\<close>
\<close>

function split_compact ::
    "int \<Rightarrow> int \<Rightarrow> stack_elt_t option list \<times> int \<Rightarrow> stack_elt_t option list \<times> int" where
  "split_compact k tp st =
     (case st of (my_stack, i) \<Rightarrow>
        if k < tp
        then split_compact (k + 2) tp (my_stack[nat i := my_stack ! nat k], i + 1)
        else (my_stack, i))"
  by pat_completeness auto
termination
  by (relation "measure (\<lambda>(k, tp, st). nat (tp - k))") auto

text \<open>
  \<^verbatim>\<open>Split_stack\<close> allocates \<^verbatim>\<open>new_stack\<close> with \<^verbatim>\<open>*top_p\<close> slots, runs the two loops and
  sets \<^verbatim>\<open>*top_p\<close>. It returns the caller's stack and the globals.
\<close>

definition Split_stack :: "stack_vars \<Rightarrow> term_globals \<Rightarrow> stack_vars \<times> term_globals" where
  "Split_stack s g =
     (let tp = stk_top s in
      case split_move 1 tp (stk s, malloc_slots tp, 0) of (my1, new1, ntop) \<Rightarrow>
      case split_compact 2 tp (my1, 1) of (my2, i) \<Rightarrow>
        (s\<lparr>stk := my2, stk_top := i\<rparr>,
         g\<lparr>new_stack := Some new1, new_stack_size := tp, new_stack_top := ntop\<rparr>))"

text \<open>
  \<^verbatim>\<open>Terminated\<close> reads \<^verbatim>\<open>threads_in_cond_wait\<close> and \<^verbatim>\<open>new_stack\<close> once without the mutex
  (the values it sees there are \<open>seen_waiting\<close> and \<open>seen_mailbox_empty\<close>), and
  \<^verbatim>\<open>pthread_mutex_trylock\<close> succeeds or not (\<open>trylock_ok\<close>); these depend on the other
  threads. The calls to \<^verbatim>\<open>pthread_cond_signal\<close> and \<^verbatim>\<open>pthread_cond_broadcast\<close> are
  recorded in the result.
\<close>

record racy_view =
  seen_waiting :: int
  seen_mailbox_empty :: bool
  trylock_ok :: bool

datatype wake = No_wake | Signal | Broadcast

text \<open>
  The part of \<^verbatim>\<open>Terminated\<close> up to \<^verbatim>\<open>pthread_cond_wait\<close>: it returns 0 or 1, or the
  thread blocks. The globals are the ones the thread finds when it holds the mutex.
\<close>

datatype entry_result =
  Returned int wake term_globals stack_vars
| Blocked term_globals

definition Terminated_entry :: "int \<Rightarrow> racy_view \<Rightarrow> term_globals \<Rightarrow> stack_vars \<Rightarrow> entry_result" where
  "Terminated_entry thread_count view g s =
     (if stk_top s \<ge> 2 \<and> seen_waiting view > 0 \<and> seen_mailbox_empty view
      then
        (if trylock_ok view
         then (if threads_in_cond_wait g > 0 \<and> new_stack g = None
               then (case Split_stack s g of (s', g') \<Rightarrow> Returned 0 Signal g' s')
               else Returned 0 No_wake g s)
         else Returned 0 No_wake g s)
      else if \<not> Empty (stk_top s) then Returned 0 No_wake g s
      else
        (if threads_in_cond_wait g = thread_count - 1 \<and> new_stack g = None
         then Returned 1 Broadcast (g\<lparr>threads_in_cond_wait := threads_in_cond_wait g + 1\<rparr>) s
         else Blocked (g\<lparr>threads_in_cond_wait := threads_in_cond_wait g + 1\<rparr>)))"

text \<open>
  The part after \<^verbatim>\<open>pthread_cond_wait\<close> has returned 0 (the loop around it repeats the
  wait only when it returns an error): the thread holds the mutex again and finds the
  globals \<open>g\<close>. \<^verbatim>\<open>free(*stack_p); *stack_p = new_stack;\<close> installs whatever the mailbox
  holds, a \<^verbatim>\<open>NULL\<close> pointer included.
\<close>

definition Terminated_wake :: "int \<Rightarrow> term_globals \<Rightarrow> stack_vars \<Rightarrow> int \<times> term_globals \<times> stack_vars" where
  "Terminated_wake thread_count g s =
     (if threads_in_cond_wait g < thread_count \<or> new_stack g \<noteq> None
      then (0,
            g\<lparr>new_stack := None, threads_in_cond_wait := threads_in_cond_wait g - 1\<rparr>,
            s\<lparr>stk := (case new_stack g of None \<Rightarrow> [] | Some arr \<Rightarrow> arr),
              stk_top := new_stack_top g,
              stk_size := new_stack_size g\<rparr>)
      else (1, g, s))"

text \<open>
  One whole call of \<^verbatim>\<open>Terminated\<close>. While the thread waits, the other threads change the
  globals: \<open>others\<close> maps the globals the thread left when it blocked to the ones it
  finds when it wakes.
\<close>

definition Terminated ::
    "int \<Rightarrow> racy_view \<Rightarrow> (term_globals \<Rightarrow> term_globals) \<Rightarrow> term_globals \<Rightarrow> stack_vars \<Rightarrow>
     int \<times> term_globals \<times> stack_vars" where
  "Terminated thread_count view others g s =
     (case Terminated_entry thread_count view g s of
        Returned r w g' s' \<Rightarrow> (r, g', s')
      | Blocked g' \<Rightarrow> Terminated_wake thread_count (others g') s)"

section \<open>The search loop\<close>

text \<open>C's \<^verbatim>\<open>/\<close> and \<^verbatim>\<open>%\<close> on \<^verbatim>\<open>int\<close> truncate towards zero.\<close>

definition c_div :: "int \<Rightarrow> int \<Rightarrow> int" where
  "c_div a b = sgn a * sgn b * (\<bar>a\<bar> div \<bar>b\<bar>)"

definition c_mod :: "int \<Rightarrow> int \<Rightarrow> int" where
  "c_mod a b = a - b * c_div a b"

text \<open>
  One iteration of the loop of \<^verbatim>\<open>Fill_stack\<close> builds the tour
  \<^verbatim>\<open>Initialize_tour(temp_tour_p); temp_tour_p->cities[0] = 0; temp_tour_p->count = 1;\<close>
  and a stack element for the city \<open>i\<close>. The element comes from \<^verbatim>\<open>malloc\<close> and its cost
  field is not initialised before \<^verbatim>\<open>stack[*top_p]->cost += mat[i];\<close> adds to it:
  \<open>garbage i\<close> is the value that field holds when the element for city \<open>i\<close> is allocated.
\<close>

definition first_tour :: "int \<Rightarrow> tour_t" where
  "first_tour n = (Initialize_tour n)\<lparr>cities := (cities (Initialize_tour n))[0 := 0], count := 1\<rparr>"

function fill_from ::
    "int \<Rightarrow> int \<Rightarrow> int \<Rightarrow> weight_t list \<Rightarrow> (int \<Rightarrow> weight_t) \<Rightarrow> stack_vars \<Rightarrow> stack_vars" where
  "fill_from i last_final_city n mat garbage s =
     (if i \<le> last_final_city
      then fill_from (i + 1) last_final_city n mat garbage
             (s\<lparr>stk := (stk s)[nat (stk_top s) :=
                          Some \<lparr>elt_tour_p = first_tour n, elt_city = i,
                                elt_cost = int_add (garbage i) (mat_at mat i)\<rparr>],
                stk_top := stk_top s + 1\<rparr>)
      else s)"
  by pat_completeness auto
termination
  by (relation "measure (\<lambda>(i, last_final_city, n, mat, garbage, s). nat (last_final_city + 1 - i))") auto

text \<open>
  \<^verbatim>\<open>Fill_stack\<close>: the worker of rank \<open>my_rank\<close> takes a block of the cities \<open>1 .. n - 1\<close>.
\<close>

definition Fill_stack ::
    "int \<Rightarrow> int \<Rightarrow> weight_t list \<Rightarrow> (int \<Rightarrow> weight_t) \<Rightarrow> int \<Rightarrow> stack_vars \<Rightarrow> stack_vars" where
  "Fill_stack n thread_count mat garbage my_rank s =
     (let quotient = c_div (n - 1) thread_count;
          remainder = c_mod (n - 1) thread_count;
          partial_tour_count = (if my_rank < remainder then quotient + 1 else quotient);
          first_final_city =
            (if my_rank < remainder then my_rank * partial_tour_count + 1
             else my_rank * partial_tour_count + remainder + 1);
          last_final_city = first_final_city + partial_tour_count - 1
      in fill_from first_final_city last_final_city n mat garbage s)"

text \<open>
  The start of \<^verbatim>\<open>Search\<close>: \<^verbatim>\<open>local_best.cost = INFINITY\<close> (the other fields of
  \<^verbatim>\<open>local_best\<close> are never read or written), an array of \<open>2 * n\<close> slots, and
  \<^verbatim>\<open>Fill_stack\<close>.
\<close>

definition initial_local_best :: tour_t where
  "initial_local_best = \<lparr>cities = [], count = 0, cost = INFINITY\<rparr>"

definition initial_stack :: "int \<Rightarrow> int \<Rightarrow> weight_t list \<Rightarrow> (int \<Rightarrow> weight_t) \<Rightarrow> int \<Rightarrow> stack_vars" where
  "initial_stack n thread_count mat garbage my_rank =
     Fill_stack n thread_count mat garbage my_rank
       \<lparr>stk = malloc_slots (n * 2), stk_top = 0, stk_size = n * 2\<rparr>"

text \<open>
  The inner loop of \<^verbatim>\<open>Search\<close>:
  \<^verbatim>\<open>for (nbr = n-1; nbr > 0; nbr--) if (Feasible(city, nbr, temp_tour_p, &local_best)) Push(...);\<close>
\<close>

function push_nbrs ::
    "int \<Rightarrow> int \<Rightarrow> weight_t list \<Rightarrow> city_t \<Rightarrow> tour_t \<Rightarrow> tour_t \<Rightarrow> stack_vars \<Rightarrow> stack_vars" where
  "push_nbrs nbr n mat cty tour_p local_best s =
     (if nbr > 0
      then push_nbrs (nbr - 1) n mat cty tour_p local_best
             (if Feasible n mat cty nbr tour_p local_best
              then Push n tour_p nbr (mat_at mat (n * cty + nbr)) s
              else s)
      else s)"
  by pat_completeness auto
termination
  by (relation "measure (\<lambda>(nbr, n, mat, cty, tour_p, local_best, s). nat nbr)") auto

text \<open>
  One iteration of the \<^verbatim>\<open>while\<close> loop of \<^verbatim>\<open>Search\<close>, after \<^verbatim>\<open>Terminated\<close> has returned 0:
  pop, extend the tour by the popped city, then either check the complete tour against
  \<^verbatim>\<open>best_tour\<close> (with \<^verbatim>\<open>best_tour_mutex\<close> held) or push the feasible neighbours. The state
  is \<^verbatim>\<open>best_tour\<close>, the worker's \<^verbatim>\<open>local_best\<close> and its stack. The result is \<open>None\<close> when
  the iteration reads or writes outside an array.
\<close>

definition Search_body ::
    "int \<Rightarrow> weight_t list \<Rightarrow> tour_t \<times> tour_t \<times> stack_vars \<Rightarrow> (tour_t \<times> tour_t \<times> stack_vars) option" where
  "Search_body n mat st =
     (case st of (best_tour, local_best, s) \<Rightarrow>
        (case Pop s of
           None \<Rightarrow> None
         | Some (temp_tour_p, cty, cst, s1) \<Rightarrow>
             if 0 \<le> count temp_tour_p \<and> nat (count temp_tour_p) < length (cities temp_tour_p)
             then
               (let t1 = temp_tour_p
                      \<lparr>cities := (cities temp_tour_p)[nat (count temp_tour_p) := cty],
                       cost := int_add (cost temp_tour_p) cst,
                       count := count temp_tour_p + 1\<rparr>
                in if count t1 = n
                   then (case Check_best_tour n mat cty t1 (best_tour, local_best) of
                           (best_tour', local_best') \<Rightarrow> Some (best_tour', local_best', s1))
                   else Some (best_tour, local_best, push_nbrs (n - 1) n mat cty t1 local_best s1))
             else None))"

section \<open>The threads together\<close>

text \<open>
  Where a worker is in \<^verbatim>\<open>Search\<close>: not yet started, at the head of the \<^verbatim>\<open>while\<close> loop (about
  to call \<^verbatim>\<open>Terminated\<close>), in the loop body (\<^verbatim>\<open>Terminated\<close> has returned 0), blocked in
  \<^verbatim>\<open>pthread_cond_wait\<close>, woken and about to take the mutex again, or returned.
\<close>

datatype pc = At_start | At_loop | In_body | Waiting | Woken | Done

record worker =
  w_pc :: pc
  w_stack :: stack_vars
  w_local_best :: tour_t

record system =
  sys_best :: tour_t
  sys_globals :: term_globals
  sys_workers :: "worker list"

text \<open>
  One step of the worker of rank \<open>r\<close> on \<^verbatim>\<open>best_tour\<close>, the termination globals and its own
  locals. The code between two steps touches only the worker's locals or runs with a
  mutex held, so each step is atomic. The label is the wake-up call the step makes.
\<close>

inductive worker_step ::
    "int \<Rightarrow> int \<Rightarrow> weight_t list \<Rightarrow> (int \<Rightarrow> weight_t) \<Rightarrow> nat \<Rightarrow>
     tour_t \<times> term_globals \<times> worker \<Rightarrow> wake \<Rightarrow> tour_t \<times> term_globals \<times> worker \<Rightarrow> bool"
  for n :: int and thread_count :: int and mat :: "weight_t list" and garbage :: "int \<Rightarrow> weight_t"
  where
    starts:
      "w_pc wk = At_start \<Longrightarrow>
       worker_step n thread_count mat garbage r (b, g, wk) No_wake
         (b, g, \<lparr>w_pc = At_loop,
                 w_stack = initial_stack n thread_count mat garbage (int r),
                 w_local_best = initial_local_best\<rparr>)"
  | returns:
      "w_pc wk = At_loop \<Longrightarrow>
       Terminated_entry thread_count view g (w_stack wk) = Returned ret wake_call g' s' \<Longrightarrow>
       worker_step n thread_count mat garbage r (b, g, wk) wake_call
         (b, g', wk\<lparr>w_pc := (if ret = 0 then In_body else Done), w_stack := s'\<rparr>)"
  | blocks:
      "w_pc wk = At_loop \<Longrightarrow>
       Terminated_entry thread_count view g (w_stack wk) = Blocked g' \<Longrightarrow>
       worker_step n thread_count mat garbage r (b, g, wk) No_wake (b, g', wk\<lparr>w_pc := Waiting\<rparr>)"
  | resumes:
      "w_pc wk = Woken \<Longrightarrow>
       Terminated_wake thread_count g (w_stack wk) = (ret, g', s') \<Longrightarrow>
       worker_step n thread_count mat garbage r (b, g, wk) No_wake
         (b, g', wk\<lparr>w_pc := (if ret = 0 then In_body else Done), w_stack := s'\<rparr>)"
  | iterates:
      "w_pc wk = In_body \<Longrightarrow>
       Search_body n mat (b, w_local_best wk, w_stack wk) = Some (b', local_best', s') \<Longrightarrow>
       worker_step n thread_count mat garbage r (b, g, wk) No_wake
         (b', g, wk\<lparr>w_pc := At_loop, w_local_best := local_best', w_stack := s'\<rparr>)"

text \<open>
  The effect of a wake-up call on the other workers: \<^verbatim>\<open>pthread_cond_signal\<close> wakes one
  blocked worker when there is one, \<^verbatim>\<open>pthread_cond_broadcast\<close> all of them.
\<close>

definition wake_up :: "worker \<Rightarrow> worker" where
  "wake_up wk = (if w_pc wk = Waiting then wk\<lparr>w_pc := Woken\<rparr> else wk)"

inductive woken_by :: "wake \<Rightarrow> worker list \<Rightarrow> worker list \<Rightarrow> bool" where
    no_wake: "woken_by No_wake ws ws"
  | signal_one: "v < length ws \<Longrightarrow> w_pc (ws ! v) = Waiting \<Longrightarrow> woken_by Signal ws (ws[v := wake_up (ws ! v)])"
  | signal_none: "list_all (\<lambda>wk. w_pc wk \<noteq> Waiting) ws \<Longrightarrow> woken_by Signal ws ws"
  | broadcast: "woken_by Broadcast ws (map wake_up ws)"

text \<open>
  A step of the program: a step of one worker, with its wake-up call; or a blocked worker
  returns from \<^verbatim>\<open>pthread_cond_wait\<close> that nobody has signalled (POSIX allows such spurious
  wake-ups, and a signal may wake more than one thread).
\<close>

inductive step ::
    "int \<Rightarrow> int \<Rightarrow> weight_t list \<Rightarrow> (int \<Rightarrow> weight_t) \<Rightarrow> system \<Rightarrow> system \<Rightarrow> bool"
  for n :: int and thread_count :: int and mat :: "weight_t list" and garbage :: "int \<Rightarrow> weight_t"
  where
    of_worker:
      "r < length (sys_workers \<sigma>) \<Longrightarrow>
       worker_step n thread_count mat garbage r
         (sys_best \<sigma>, sys_globals \<sigma>, sys_workers \<sigma> ! r) wake_call (b', g', wk') \<Longrightarrow>
       woken_by wake_call ((sys_workers \<sigma>)[r := wk']) ws' \<Longrightarrow>
       step n thread_count mat garbage \<sigma> \<lparr>sys_best = b', sys_globals = g', sys_workers = ws'\<rparr>"
  | spurious:
      "r < length (sys_workers \<sigma>) \<Longrightarrow> w_pc (sys_workers \<sigma> ! r) = Waiting \<Longrightarrow>
       step n thread_count mat garbage \<sigma>
         (\<sigma>\<lparr>sys_workers := (sys_workers \<sigma>)[r := wake_up (sys_workers \<sigma> ! r)]\<rparr>)"

text \<open>
  \<^verbatim>\<open>main\<close> initialises \<^verbatim>\<open>best_tour\<close> and creates \<^verbatim>\<open>thread_count\<close> workers. The locals of a
  worker that has not started hold nothing yet.
\<close>

definition initial_worker :: worker where
  "initial_worker =
     \<lparr>w_pc = At_start, w_stack = \<lparr>stk = [], stk_top = 0, stk_size = 0\<rparr>,
      w_local_best = initial_local_best\<rparr>"

definition initial_system :: "int \<Rightarrow> int \<Rightarrow> system" where
  "initial_system n thread_count =
     \<lparr>sys_best = initial_best_tour n, sys_globals = initial_globals,
      sys_workers = replicate (nat thread_count) initial_worker\<rparr>"

inductive reachable ::
    "int \<Rightarrow> int \<Rightarrow> weight_t list \<Rightarrow> (int \<Rightarrow> weight_t) \<Rightarrow> system \<Rightarrow> bool"
  for n :: int and thread_count :: int and mat :: "weight_t list" and garbage :: "int \<Rightarrow> weight_t"
  where
    initially: "reachable n thread_count mat garbage (initial_system n thread_count)"
  | after_step:
      "reachable n thread_count mat garbage \<sigma> \<Longrightarrow> step n thread_count mat garbage \<sigma> \<sigma>' \<Longrightarrow>
       reachable n thread_count mat garbage \<sigma>'"

text \<open>All workers have returned from \<^verbatim>\<open>Search\<close>: \<^verbatim>\<open>main\<close> gets past its joins.\<close>

definition all_done :: "system \<Rightarrow> bool" where
  "all_done \<sigma> = list_all (\<lambda>wk. w_pc wk = Done) (sys_workers \<sigma>)"

section \<open>Tours of all the cities\<close>

text \<open>
  The cost of a path, read from the matrix: the sum of \<^verbatim>\<open>mat[n*a + b]\<close> over its consecutive
  cities \<open>a\<close>, \<open>b\<close>.
\<close>

fun path_cost :: "int \<Rightarrow> weight_t list \<Rightarrow> city_t list \<Rightarrow> weight_t" where
  "path_cost n mat (a # b # rest) = mat_at mat (n * a + b) + path_cost n mat (b # rest)"
| "path_cost n mat [a] = 0"
| "path_cost n mat [] = 0"

text \<open>
  A complete tour: \<open>n + 1\<close> cities, from city 0 back to city 0, and its first \<open>n\<close> cities are
  the cities \<open>0 .. n - 1\<close>, each once.
\<close>

definition complete_tour :: "int \<Rightarrow> city_t list \<Rightarrow> bool" where
  "complete_tour n T =
     (length T = nat n + 1 \<and> T ! 0 = 0 \<and> T ! nat n = 0 \<and>
      distinct (take (nat n) T) \<and> set (take (nat n) T) = {0..<n})"

section \<open>Start-up\<close>

text \<open>
  What \<^verbatim>\<open>main\<close> does up to the creation of the workers, as the list of its visible
  events: a line written to \<^verbatim>\<open>stderr\<close>, \<^verbatim>\<open>exit\<close>, \<^verbatim>\<open>pthread_create\<close> for a rank.
\<close>

datatype event = Stderr string | Exit int | Create_thread int

definition Usage :: "string \<Rightarrow> event list" where
  "Usage prog_name =
     [Stderr (''usage: '' @ prog_name @ '' <thread_count> <matrix file>\<newline>''),
      Stderr ''thread_count must be  greater than or equal to 1\<newline>'',
      Stderr ''and less than number of cities\<newline>'',
      Exit 0]"

text \<open>
  \<^verbatim>\<open>Read_mat\<close>. The file is the list of the integers it holds. \<^verbatim>\<open>fscanf\<close> stores the next
  integer of the file, and stores nothing once the file has run out: the global \<open>n\<close>
  keeps its initial 0 when the file is empty, and a cell of \<^verbatim>\<open>mat\<close> then keeps what
  \<^verbatim>\<open>malloc\<close> returned it with. \<open>heap k\<close> is the content of cell \<open>k\<close> of the block of \<open>n * n\<close>
  cells that \<^verbatim>\<open>malloc\<close> returns. The two loops
  \<^verbatim>\<open>for (i = 0; i < n; i++) for (j = 0; j < n; j++) fscanf(mat_file, "%d", &mat[n*i+j]);\<close>
  carry their counters and the rest of the file as arguments.
\<close>

function read_row :: "int \<Rightarrow> int \<Rightarrow> int \<Rightarrow> int list \<Rightarrow> weight_t list \<Rightarrow> int list \<times> weight_t list" where
  "read_row j i n toks mat =
     (if j < n
      then (case toks of
              [] \<Rightarrow> read_row (j + 1) i n [] mat
            | t # rest \<Rightarrow> read_row (j + 1) i n rest (mat[nat (n * i + j) := t]))
      else (toks, mat))"
  by pat_completeness auto
termination
  by (relation "measure (\<lambda>(j, i, n, toks, mat). nat (n - j))") auto

function read_rows :: "int \<Rightarrow> int \<Rightarrow> int list \<Rightarrow> weight_t list \<Rightarrow> weight_t list" where
  "read_rows i n toks mat =
     (if i < n
      then (case read_row 0 i n toks mat of (toks', mat') \<Rightarrow> read_rows (i + 1) n toks' mat')
      else mat)"
  by pat_completeness auto
termination
  by (relation "measure (\<lambda>(i, n, toks, mat). nat (n - i))") auto

definition Read_mat :: "(int \<Rightarrow> weight_t) \<Rightarrow> int list \<Rightarrow> int \<times> weight_t list" where
  "Read_mat heap toks =
     (let n = (case toks of [] \<Rightarrow> 0 | k # rest \<Rightarrow> k)
      in (n, read_rows 0 n (tl toks) (map (\<lambda>k. heap (int k)) [0..<nat (n * n)])))"

text \<open>
  \<^verbatim>\<open>main\<close>, with \<^verbatim>\<open>argv[0]\<close> as \<open>prog_name\<close> and \<^verbatim>\<open>argv[1], argv[2], ...\<close> as \<open>args\<close>, so
  that \<^verbatim>\<open>argc\<close> is \<open>1 + length args\<close>. The C library is a parameter: \<open>strtol s\<close> is
  \<^verbatim>\<open>strtol(s, NULL, 10)\<close> stored in an \<^verbatim>\<open>int\<close>, \<open>fopen name\<close> is the content of the file
  or \<open>None\<close> when it cannot be opened, and \<open>heap\<close> is the content of the block \<^verbatim>\<open>Read_mat\<close>
  allocates. \<^verbatim>\<open>Usage\<close> calls \<^verbatim>\<open>exit\<close>, so nothing follows it.
\<close>

definition main ::
    "(string \<Rightarrow> int) \<Rightarrow> (string \<Rightarrow> int list option) \<Rightarrow> (int \<Rightarrow> weight_t) \<Rightarrow> string \<Rightarrow> string list \<Rightarrow>
     event list" where
  "main strtol fopen heap prog_name args =
     (if 1 + int (length args) \<noteq> 3 then Usage prog_name
      else
        (case fopen (args ! 1) of
           None \<Rightarrow> Stderr (''Can't open '' @ args ! 0 @ ''\<newline>'') # Usage prog_name
         | Some toks \<Rightarrow>
             (case Read_mat heap toks of (n, mat) \<Rightarrow>
                let thread_count = strtol (args ! 0) in
                if thread_count < 1 \<or> n \<le> thread_count then Usage prog_name
                else map (\<lambda>thread. Create_thread (int thread)) [0..<nat thread_count])))"

definition creates_thread :: "event \<Rightarrow> bool" where
  "creates_thread e = (case e of Create_thread r \<Rightarrow> True | _ \<Rightarrow> False)"

text \<open>Fixtures for the examples: a one-digit \<^verbatim>\<open>strtol\<close>, a file system with one matrix file.\<close>

definition strtol_digit :: "string \<Rightarrow> int" where
  "strtol_digit s = (case s of [c] \<Rightarrow> int (of_char c) - 48 | _ \<Rightarrow> 0)"

definition one_file :: "string \<Rightarrow> int list option" where
  "one_file name = (if name = ''m.txt'' then Some [2, 0, 5, 5, 0] else None)"

text \<open>Two contents of freshly allocated cost fields: all 0, and all 7.\<close>

definition garbage_0 :: "int \<Rightarrow> weight_t" where
  "garbage_0 i = 0"

definition garbage_7 :: "int \<Rightarrow> weight_t" where
  "garbage_7 i = 7"

text \<open>The live elements of a stack, bottom first: the slots below \<^verbatim>\<open>top\<close>.\<close>

definition frames :: "stack_vars \<Rightarrow> stack_elt_t list" where
  "frames s = map the (take (nat (stk_top s)) (stk s))"

section \<open>Well-formed stacks and frames\<close>

text \<open>
  A stack is well formed when \<^verbatim>\<open>top\<close> lies within the array, the array has \<^verbatim>\<open>size\<close> slots, at
  least one, and every slot below \<^verbatim>\<open>top\<close> points to a live element.
\<close>

definition wf_stack :: "stack_vars \<Rightarrow> bool" where
  "wf_stack s =
     (0 \<le> stk_top s \<and> stk_top s \<le> stk_size s \<and> int (length (stk s)) = stk_size s \<and>
      1 \<le> stk_size s \<and> list_all (\<lambda>x. x \<noteq> None) (take (nat (stk_top s)) (stk s)))"

text \<open>
  The element \<^verbatim>\<open>Search\<close> pushes for a feasible neighbour \<open>nbr\<close> of \<open>cty\<close>.
\<close>

definition new_frame :: "int \<Rightarrow> weight_t list \<Rightarrow> city_t \<Rightarrow> tour_t \<Rightarrow> city_t \<Rightarrow> stack_elt_t" where
  "new_frame n mat cty tour_p nbr =
     \<lparr>elt_tour_p = Dup_tour n tour_p, elt_city = nbr, elt_cost = mat_at mat (n * cty + nbr)\<rparr>"

text \<open>
  The element \<^verbatim>\<open>Fill_stack\<close> stores for the city \<open>i\<close>.
\<close>

definition first_frame :: "int \<Rightarrow> weight_t list \<Rightarrow> (int \<Rightarrow> weight_t) \<Rightarrow> city_t \<Rightarrow> stack_elt_t" where
  "first_frame n mat garbage i =
     \<lparr>elt_tour_p = first_tour n, elt_city = i, elt_cost = int_add (garbage i) (mat_at mat i)\<rparr>"

text \<open>
  A frame stands for the path made of the first \<^verbatim>\<open>count\<close> cities of its tour followed by its
  own city; \<open>extended_tour\<close> is the tour \<^verbatim>\<open>Search\<close> makes of a popped frame before it tests
  \<^verbatim>\<open>count == n\<close>.
\<close>

definition visited_part :: "stack_elt_t \<Rightarrow> city_t list" where
  "visited_part f = take (nat (count (elt_tour_p f))) (cities (elt_tour_p f))"

definition extended :: "stack_elt_t \<Rightarrow> city_t list" where
  "extended f = visited_part f @ [elt_city f]"

definition extended_tour :: "stack_elt_t \<Rightarrow> tour_t" where
  "extended_tour f =
     (elt_tour_p f)
       \<lparr>cities := (cities (elt_tour_p f))[nat (count (elt_tour_p f)) := elt_city f],
        cost := int_add (cost (elt_tour_p f)) (elt_cost f),
        count := count (elt_tour_p f) + 1\<rparr>"

text \<open>
  The weights fit when \<open>n\<close> times each entry is at most \<^verbatim>\<open>INT_MAX\<close>: a path through the
  \<open>n\<close> cities and back has \<open>n\<close> edges, so no sum of weights along a path leaves the range
  of \<^verbatim>\<open>int\<close>.
\<close>

definition weights_fit :: "int \<Rightarrow> weight_t list \<Rightarrow> bool" where
  "weights_fit n mat = list_all (\<lambda>x. n * x \<le> INT_MAX) mat"

text \<open>
  A matrix of \<open>n * n\<close> entries, none negative, with weights that fit.
\<close>

definition valid_matrix :: "int \<Rightarrow> weight_t list \<Rightarrow> bool" where
  "valid_matrix n mat =
     (length mat = nat (n * n) \<and> list_all (\<lambda>x. 0 \<le> x) mat \<and> weights_fit n mat)"

text \<open>
  What every frame of a run satisfies: between 1 and \<open>n - 1\<close> cities visited, starting at
  city 0, an array of at least \<open>n\<close> cells, the path with the frame's city a list of
  distinct cities below \<open>n\<close>, and the two costs read from the matrix.
\<close>

definition good_frame :: "int \<Rightarrow> weight_t list \<Rightarrow> stack_elt_t \<Rightarrow> bool" where
  "good_frame n mat f =
     (1 \<le> count (elt_tour_p f) \<and> count (elt_tour_p f) < n \<and>
      nat n \<le> length (cities (elt_tour_p f)) \<and>
      hd (visited_part f) = 0 \<and> distinct (extended f) \<and> set (extended f) \<subseteq> {0..<n} \<and>
      1 \<le> elt_city f \<and>
      cost (elt_tour_p f) = path_cost n mat (visited_part f) \<and>
      elt_cost f = mat_at mat (n * last (visited_part f) + elt_city f))"

text \<open>
  A frame covers a tour when its path is how the tour starts.
\<close>

definition covers :: "stack_elt_t \<Rightarrow> city_t list \<Rightarrow> bool" where
  "covers f T = prefix (extended f) T"

text \<open>
  The stack in the mailbox (\<^verbatim>\<open>new_stack\<close>, \<^verbatim>\<open>new_stack_top\<close>, \<^verbatim>\<open>new_stack_size\<close>) and its
  live elements.
\<close>

definition mailbox_stack :: "term_globals \<Rightarrow> stack_vars" where
  "mailbox_stack g =
     \<lparr>stk = (case new_stack g of None \<Rightarrow> [] | Some arr \<Rightarrow> arr),
      stk_top = new_stack_top g, stk_size = new_stack_size g\<rparr>"

definition mailbox :: "term_globals \<Rightarrow> stack_elt_t list" where
  "mailbox g = (case new_stack g of None \<Rightarrow> [] | Some arr \<Rightarrow> frames (mailbox_stack g))"

text \<open>
  The block of cities \<^verbatim>\<open>Fill_stack\<close> gives the worker of rank \<open>r\<close>, for \<open>n \<ge> 2\<close> and
  \<open>thread_count \<ge> 1\<close>: its first city and the number of its cities.
\<close>

definition block_first :: "int \<Rightarrow> int \<Rightarrow> int \<Rightarrow> int" where
  "block_first n thread_count r =
     (if r < (n - 1) mod thread_count then r * ((n - 1) div thread_count + 1) + 1
      else r * ((n - 1) div thread_count) + (n - 1) mod thread_count + 1)"

definition block_count :: "int \<Rightarrow> int \<Rightarrow> int \<Rightarrow> int" where
  "block_count n thread_count r =
     (if r < (n - 1) mod thread_count then (n - 1) div thread_count + 1
      else (n - 1) div thread_count)"

section \<open>Invariants of a run\<close>

text \<open>
  The configurations \<^verbatim>\<open>main\<close> lets through, with a matrix without negative entries whose
  weights fit.
\<close>

definition valid_input :: "int \<Rightarrow> int \<Rightarrow> weight_t list \<Rightarrow> bool" where
  "valid_input n thread_count mat =
     (2 \<le> n \<and> 1 \<le> thread_count \<and> thread_count < n \<and> valid_matrix n mat)"

text \<open>
  A worker counted by \<^verbatim>\<open>threads_in_cond_wait\<close>: blocked, woken, or returned.
\<close>

definition idle :: "worker \<Rightarrow> bool" where
  "idle wk = (w_pc wk = Waiting \<or> w_pc wk = Woken \<or> w_pc wk = Done)"

definition idle_count :: "worker list \<Rightarrow> int" where
  "idle_count ws = (\<Sum>v < length ws. if idle (ws ! v) then 1 else 0)"

text \<open>
  The stack of a worker, by where the worker is: well formed at the loop head; non-empty
  in the loop body, unless the worker has just installed a \<^verbatim>\<open>NULL\<close> mailbox (its next
  \<^verbatim>\<open>Pop\<close> is undefined, and the worker makes no further step); empty when it waits or has
  returned.
\<close>

definition worker_ok :: "worker \<Rightarrow> bool" where
  "worker_ok wk =
     (case w_pc wk of
        At_start \<Rightarrow> True
      | At_loop \<Rightarrow> wf_stack (w_stack wk)
      | In_body \<Rightarrow> (wf_stack (w_stack wk) \<and> 1 \<le> stk_top (w_stack wk)) \<or> stk (w_stack wk) = []
      | Waiting \<Rightarrow> stk_top (w_stack wk) = 0
      | Woken \<Rightarrow> stk_top (w_stack wk) = 0
      | Done \<Rightarrow> stk_top (w_stack wk) = 0)"

text \<open>
  The mailbox is empty or holds a well-formed stack with at least one frame.
\<close>

definition mailbox_ok :: "term_globals \<Rightarrow> bool" where
  "mailbox_ok g = (new_stack g = None \<or> (wf_stack (mailbox_stack g) \<and> 1 \<le> new_stack_top g))"

text \<open>
  \<^verbatim>\<open>best_tour\<close> is as \<^verbatim>\<open>main\<close> initialised it, or it holds a complete tour with its cost,
  which is below \<^verbatim>\<open>INFINITY\<close>.
\<close>

definition best_ok :: "int \<Rightarrow> weight_t list \<Rightarrow> tour_t \<Rightarrow> bool" where
  "best_ok n mat b =
     (length (cities b) = nat n + 1 \<and> cost b \<le> INFINITY \<and>
      (b = initial_best_tour n \<or>
       (count b = n + 1 \<and> complete_tour n (cities b) \<and> cost b = path_cost n mat (cities b) \<and>
        cost b < INFINITY)))"

text \<open>
  The frames a worker still has to process (those \<^verbatim>\<open>Fill_stack\<close> will give it, before it
  starts), and all frames of a state: those of the workers and those in the mailbox.
\<close>

definition pending :: "int \<Rightarrow> int \<Rightarrow> weight_t list \<Rightarrow> nat \<Rightarrow> worker \<Rightarrow> stack_elt_t list" where
  "pending n thread_count mat r wk =
     (if w_pc wk = At_start then frames (initial_stack n thread_count mat garbage_0 (int r))
      else frames (w_stack wk))"

definition live :: "int \<Rightarrow> int \<Rightarrow> weight_t list \<Rightarrow> worker list \<Rightarrow> term_globals \<Rightarrow> stack_elt_t set" where
  "live n thread_count mat ws g =
     (\<Union>v < length ws. set (pending n thread_count mat v (ws ! v))) \<union> set (mailbox g)"

text \<open>
  What one step of a worker does to the parts of the invariant that concern it.
\<close>

definition step_summary ::
    "int \<Rightarrow> int \<Rightarrow> weight_t list \<Rightarrow> nat \<Rightarrow> tour_t \<times> term_globals \<times> worker \<Rightarrow>
     tour_t \<times> term_globals \<times> worker \<Rightarrow> bool" where
  "step_summary n thread_count mat r x y =
     (case x of (b, g, wk) \<Rightarrow> case y of (b', g', wk') \<Rightarrow>
        worker_ok wk' \<and> mailbox_ok g' \<and> best_ok n mat b' \<and> cost b' \<le> cost b \<and>
        cost b' \<le> cost (w_local_best wk') \<and>
        threads_in_cond_wait g' + (if idle wk then 1 else 0)
          = threads_in_cond_wait g + (if idle wk' then 1 else 0) \<and>
        (\<forall>f \<in> set (pending n thread_count mat r wk') \<union> set (mailbox g'). good_frame n mat f) \<and>
        (\<forall>T. complete_tour n T \<and> path_cost n mat T < cost b' \<and>
              (\<exists>f \<in> set (pending n thread_count mat r wk) \<union> set (mailbox g). covers f T) \<longrightarrow>
              (\<exists>f \<in> set (pending n thread_count mat r wk') \<union> set (mailbox g'). covers f T)) \<and>
        (w_pc wk' = Done \<longrightarrow> thread_count \<le> threads_in_cond_wait g' \<and> new_stack g' = None) \<and>
        (thread_count \<le> threads_in_cond_wait g \<and> new_stack g = None \<and> idle wk \<longrightarrow> g' = g) \<and>
        w_pc wk' \<noteq> At_start)"

text \<open>
  The invariant of the runs on a valid input with the first cost fields reading 0: the
  stacks are well formed, every local bound is at or above the best cost,
  \<^verbatim>\<open>threads_in_cond_wait\<close> counts the idle workers, once a worker has returned all are idle
  and the mailbox is empty, every frame is good, and every complete tour cheaper than the
  best cost is covered by a frame.
\<close>

definition Inv :: "int \<Rightarrow> int \<Rightarrow> weight_t list \<Rightarrow> system \<Rightarrow> bool" where
  "Inv n thread_count mat \<sigma> =
     (length (sys_workers \<sigma>) = nat thread_count \<and>
      (\<forall>v < length (sys_workers \<sigma>).
         worker_ok (sys_workers \<sigma> ! v) \<and>
         cost (sys_best \<sigma>) \<le> cost (w_local_best (sys_workers \<sigma> ! v))) \<and>
      mailbox_ok (sys_globals \<sigma>) \<and> best_ok n mat (sys_best \<sigma>) \<and>
      threads_in_cond_wait (sys_globals \<sigma>) = idle_count (sys_workers \<sigma>) \<and>
      ((\<exists>v < length (sys_workers \<sigma>). w_pc (sys_workers \<sigma> ! v) = Done) \<longrightarrow>
         threads_in_cond_wait (sys_globals \<sigma>) = thread_count \<and> new_stack (sys_globals \<sigma>) = None) \<and>
      (\<forall>f \<in> live n thread_count mat (sys_workers \<sigma>) (sys_globals \<sigma>). good_frame n mat f) \<and>
      (\<forall>T. complete_tour n T \<and> path_cost n mat T < cost (sys_best \<sigma>) \<longrightarrow>
           (\<exists>f \<in> live n thread_count mat (sys_workers \<sigma>) (sys_globals \<sigma>). covers f T)))"

text \<open>
  Every local bound is at or above the best cost, which is at most \<^verbatim>\<open>INFINITY\<close>; a worker
  that has not started has no bound of its own yet.
\<close>

definition bounds_ok :: "system \<Rightarrow> bool" where
  "bounds_ok \<sigma> =
     (cost (sys_best \<sigma>) \<le> INFINITY \<and>
      (\<forall>v < length (sys_workers \<sigma>).
         cost (sys_best \<sigma>) \<le> cost (w_local_best (sys_workers \<sigma> ! v)) \<and>
         (w_pc (sys_workers \<sigma> ! v) = At_start \<longrightarrow>
            w_local_best (sys_workers \<sigma> ! v) = initial_local_best)))"

section \<open>Example runs\<close>

text \<open>
  Two cities, one thread, and a tour that costs more than \<^verbatim>\<open>INFINITY\<close>; the state when the
  worker has returned.
\<close>

definition dear_matrix :: "weight_t list" where
  "dear_matrix = [0, 2000000, 0, 0]"

definition dear_final :: system where
  "dear_final =
     \<lparr>sys_best = \<lparr>cities = [- 1, - 1, - 1], count = 0, cost = 1000000\<rparr>,
      sys_globals = \<lparr>threads_in_cond_wait = 1, new_stack = None, new_stack_size = 0, new_stack_top = 0\<rparr>,
      sys_workers =
        [\<lparr>w_pc = Done, w_stack = \<lparr>stk = [None, None, None, None], stk_top = 0, stk_size = 4\<rparr>,
          w_local_best = \<lparr>cities = [], count = 0, cost = 1000000\<rparr>\<rparr>]\<rparr>"

text \<open>
  Two cities, one thread, the matrix \<open>[[0, 5], [2147483647, 0]]\<close>; the state when the worker
  has returned.
\<close>

definition wrap_pair :: "weight_t list" where
  "wrap_pair = [0, 5, 2147483647, 0]"

definition wrap_final :: system where
  "wrap_final =
     \<lparr>sys_best = \<lparr>cities = [0, 1, 0], count = 3, cost = - 2147483644\<rparr>,
      sys_globals = \<lparr>threads_in_cond_wait = 1, new_stack = None, new_stack_size = 0, new_stack_top = 0\<rparr>,
      sys_workers =
        [\<lparr>w_pc = Done, w_stack = \<lparr>stk = [None, None, None, None], stk_top = 0, stk_size = 4\<rparr>,
          w_local_best = \<lparr>cities = [], count = 0, cost = - 2147483644\<rparr>\<rparr>]\<rparr>"

text \<open>
  Three cities with one weight of 2147483647: \<open>[[0, 1, 1], [1, 0, 2147483647], [1, 1, 0]]\<close>.
\<close>

definition wrap_matrix :: "weight_t list" where
  "wrap_matrix = [0, 1, 1, 1, 0, 2147483647, 1, 1, 0]"

text \<open>
  Three cities, two threads: the states before and after worker 0 commits the tour
  \<open>0, 1, 2, 0\<close>, with worker 1 at the head of its loop.
\<close>

definition three_cities :: "weight_t list" where
  "three_cities = [0, 1, 2, 3, 0, 4, 5, 6, 0]"

definition before_commit :: system where
  "before_commit =
     \<lparr>sys_best = \<lparr>cities = [- 1, - 1, - 1, - 1], count = 0, cost = 1000000\<rparr>,
      sys_globals = \<lparr>threads_in_cond_wait = 0, new_stack = None, new_stack_size = 0, new_stack_top = 0\<rparr>,
      sys_workers =
        [\<lparr>w_pc = In_body,
          w_stack = \<lparr>stk = [Some \<lparr>elt_tour_p = \<lparr>cities = [0, 1, - 1], count = 2, cost = 1\<rparr>,
                                elt_city = 2, elt_cost = 4\<rparr>,
                          None, None, None, None, None], stk_top = 1, stk_size = 6\<rparr>,
          w_local_best = \<lparr>cities = [], count = 0, cost = 1000000\<rparr>\<rparr>,
         \<lparr>w_pc = At_loop,
          w_stack = \<lparr>stk = [Some \<lparr>elt_tour_p = \<lparr>cities = [0, - 1, - 1, - 1], count = 1, cost = 0\<rparr>,
                                elt_city = 2, elt_cost = 2\<rparr>,
                          None, None, None, None, None], stk_top = 1, stk_size = 6\<rparr>,
          w_local_best = \<lparr>cities = [], count = 0, cost = 1000000\<rparr>\<rparr>]\<rparr>"

definition after_commit :: system where
  "after_commit =
     \<lparr>sys_best = \<lparr>cities = [0, 1, 2, 0], count = 4, cost = 10\<rparr>,
      sys_globals = \<lparr>threads_in_cond_wait = 0, new_stack = None, new_stack_size = 0, new_stack_top = 0\<rparr>,
      sys_workers =
        [\<lparr>w_pc = At_loop,
          w_stack = \<lparr>stk = [None, None, None, None, None, None], stk_top = 0, stk_size = 6\<rparr>,
          w_local_best = \<lparr>cities = [], count = 0, cost = 10\<rparr>\<rparr>,
         \<lparr>w_pc = At_loop,
          w_stack = \<lparr>stk = [Some \<lparr>elt_tour_p = \<lparr>cities = [0, - 1, - 1, - 1], count = 1, cost = 0\<rparr>,
                                elt_city = 2, elt_cost = 2\<rparr>,
                          None, None, None, None, None], stk_top = 1, stk_size = 6\<rparr>,
          w_local_best = \<lparr>cities = [], count = 0, cost = 1000000\<rparr>\<rparr>]\<rparr>"

text \<open>
  The same run three steps later: worker 0 has found its stack empty and waited, its wait
  has returned without a donation, and it has left \<^verbatim>\<open>Terminated\<close>.
\<close>

definition stranded :: system where
  "stranded =
     \<lparr>sys_best = \<lparr>cities = [0, 1, 2, 0], count = 4, cost = 10\<rparr>,
      sys_globals = \<lparr>threads_in_cond_wait = 0, new_stack = None, new_stack_size = 0, new_stack_top = 0\<rparr>,
      sys_workers =
        [\<lparr>w_pc = In_body,
          w_stack = \<lparr>stk = [], stk_top = 0, stk_size = 0\<rparr>,
          w_local_best = \<lparr>cities = [], count = 0, cost = 10\<rparr>\<rparr>,
         \<lparr>w_pc = At_loop,
          w_stack = \<lparr>stk = [Some \<lparr>elt_tour_p = \<lparr>cities = [0, - 1, - 1, - 1], count = 1, cost = 0\<rparr>,
                                elt_city = 2, elt_cost = 2\<rparr>,
                          None, None, None, None, None], stk_top = 1, stk_size = 6\<rparr>,
          w_local_best = \<lparr>cities = [], count = 0, cost = 1000000\<rparr>\<rparr>]\<rparr>"

text \<open>
  The run of the two workers at its end: worker 1 has found the tour \<open>0, 2, 1, 0\<close> of cost
  11, and both workers have returned.
\<close>

definition three_final :: system where
  "three_final =
     \<lparr>sys_best = \<lparr>cities = [0, 1, 2, 0], count = 4, cost = 10\<rparr>,
      sys_globals = \<lparr>threads_in_cond_wait = 2, new_stack = None, new_stack_size = 0, new_stack_top = 0\<rparr>,
      sys_workers =
        [\<lparr>w_pc = Done,
          w_stack = \<lparr>stk = [None, None, None, None, None, None], stk_top = 0, stk_size = 6\<rparr>,
          w_local_best = \<lparr>cities = [], count = 0, cost = 10\<rparr>\<rparr>,
         \<lparr>w_pc = Done,
          w_stack = \<lparr>stk = [None, None, None, None, None, None], stk_top = 0, stk_size = 6\<rparr>,
          w_local_best = \<lparr>cities = [], count = 0, cost = 1000000\<rparr>\<rparr>]\<rparr>"

section \<open>Loops\<close>

declare Visited_from.simps [simp del] copy_cities.simps [simp del]
declare split_move.simps [simp del] split_compact.simps [simp del]
declare fill_from.simps [simp del] push_nbrs.simps [simp del]
declare read_row.simps [simp del] read_rows.simps [simp del]

section \<open>Sums of weights\<close>

lemma int_add_fits: "in_int (a + b) \<Longrightarrow> int_add a b = a + b"
proof -
  assume "in_int (a + b)"
  then have "0 \<le> a + b + 2147483648" "a + b + 2147483648 < 4294967296"
    by (simp_all add: in_int_def INT_MIN_def INT_MAX_def)
  then have "(a + b + 2147483648) mod 4294967296 = a + b + 2147483648"
    by (rule mod_pos_pos_trivial)
  then show ?thesis by (simp add: int_add_def INT_MIN_def)
qed

lemma int_add_in_int: "in_int (int_add a b)"
proof -
  have "0 \<le> (a + b + 2147483648) mod 4294967296" "(a + b + 2147483648) mod 4294967296 < 4294967296"
    by simp_all
  then show ?thesis by (simp add: int_add_def in_int_def INT_MIN_def INT_MAX_def)
qed

lemma int_add_0: "in_int b \<Longrightarrow> int_add 0 b = b"
  using int_add_fits[of 0 b] by simp

section \<open>The copy loop and the visited test\<close>


lemma length_copy_cities: "length (copy_cities i tour_p dst) = length dst"
proof (induction i tour_p dst rule: copy_cities.induct)
  case (1 i tour_p dst)
  then show ?case by (subst copy_cities.simps) simp
qed

lemma nth_copy_cities:
  "0 \<le> i \<Longrightarrow> j < length dst \<Longrightarrow>
   copy_cities i tour_p dst ! j =
     (if i \<le> int j \<and> int j < count tour_p then cities tour_p ! j else dst ! j)"
proof (induction i tour_p dst rule: copy_cities.induct)
  case (1 i tour_p dst)
  show ?case
  proof (cases "i < count tour_p")
    case True
    have "copy_cities i tour_p dst ! j = copy_cities (i + 1) tour_p (dst[nat i := cities tour_p ! nat i]) ! j"
      using True by (subst copy_cities.simps) simp
    also have "\<dots> = (if i + 1 \<le> int j \<and> int j < count tour_p then cities tour_p ! j
                      else dst[nat i := cities tour_p ! nat i] ! j)"
      using "1.IH"[OF True] "1.prems" by simp
    also have "\<dots> = (if i \<le> int j \<and> int j < count tour_p then cities tour_p ! j else dst ! j)"
    proof (cases "int j = i")
      case True
      then have "nat i = j" by simp
      then show ?thesis using "1.prems" \<open>i < count tour_p\<close> True by simp
    next
      case False
      then have "nat i \<noteq> j" using "1.prems" by auto
      then show ?thesis using "1.prems" False by auto
    qed
    finally show ?thesis .
  next
    case False
    then show ?thesis by (subst copy_cities.simps) auto
  qed
qed

lemma Visited_from_iff:
  "0 \<le> i \<Longrightarrow>
   Visited_from i nbr tour_p = (\<exists>j. i \<le> j \<and> j < count tour_p \<and> cities tour_p ! nat j = nbr)"
proof (induction i nbr tour_p rule: Visited_from.induct)
  case (1 i nbr tour_p)
  show ?case
  proof (cases "i < count tour_p")
    case True
    note lt = True
    show ?thesis
    proof (cases "cities tour_p ! nat i = nbr")
      case True
      then show ?thesis using lt by (subst Visited_from.simps) auto
    next
      case False
      have "Visited_from i nbr tour_p = Visited_from (i + 1) nbr tour_p"
        using lt False by (subst Visited_from.simps) simp
      also have "\<dots> = (\<exists>j. i + 1 \<le> j \<and> j < count tour_p \<and> cities tour_p ! nat j = nbr)"
        using "1.IH"[OF lt False] "1.prems" by simp
      also have "\<dots> = (\<exists>j. i \<le> j \<and> j < count tour_p \<and> cities tour_p ! nat j = nbr)"
      proof -
        have "\<And>j. i \<le> j \<Longrightarrow> cities tour_p ! nat j = nbr \<Longrightarrow> i + 1 \<le> j"
          using False by (metis add1_zle_eq order_le_less)
        then show ?thesis by (metis add_le_imp_le_right le_add1 order_trans zle_add1_eq_le less_imp_le zless_add1_eq)
      qed
      finally show ?thesis .
    qed
  next
    case False
    then show ?thesis by (subst Visited_from.simps) auto
  qed
qed

section \<open>Feasibility and the commit of a complete tour\<close>

lemma Visited_iff:
  assumes "count tour_p \<le> int (length (cities tour_p))"
  shows "Visited nbr tour_p = (nbr \<in> set (take (nat (count tour_p)) (cities tour_p)))"
proof -
  have "Visited nbr tour_p = (\<exists>j. 0 \<le> j \<and> j < count tour_p \<and> cities tour_p ! nat j = nbr)"
    by (simp add: Visited_def Visited_from_iff)
  also have "\<dots> = (\<exists>k < nat (count tour_p). cities tour_p ! k = nbr)"
  proof
    assume "\<exists>j. 0 \<le> j \<and> j < count tour_p \<and> cities tour_p ! nat j = nbr"
    then obtain j where "0 \<le> j" "j < count tour_p" "cities tour_p ! nat j = nbr" by blast
    then have "nat j < nat (count tour_p) \<and> cities tour_p ! nat j = nbr" by simp
    then show "\<exists>k < nat (count tour_p). cities tour_p ! k = nbr" by blast
  next
    assume "\<exists>k < nat (count tour_p). cities tour_p ! k = nbr"
    then obtain k where "k < nat (count tour_p)" "cities tour_p ! k = nbr" by blast
    then have "0 \<le> int k \<and> int k < count tour_p \<and> cities tour_p ! nat (int k) = nbr" by simp
    then show "\<exists>j. 0 \<le> j \<and> j < count tour_p \<and> cities tour_p ! nat j = nbr" by blast
  qed
  also have "\<dots> = (nbr \<in> set (take (nat (count tour_p)) (cities tour_p)))"
    using assms by (auto simp: in_set_conv_nth)
  finally show ?thesis .
qed

text \<open>
  C4, with the sum as the program computes it. \<^verbatim>\<open>Feasible(city, nbr, tour, local_best)\<close> is
  true exactly when \<open>nbr\<close> is not among the first \<open>count\<close> cities of the tour and the
  \<^verbatim>\<open>int\<close> sum of the tour's cost and \<^verbatim>\<open>mat[n*city + nbr]\<close> is strictly below the worker's
  local best cost; when the tour's cost plus \<^verbatim>\<open>mat[n*city + nbr]\<close> is an \<^verbatim>\<open>int\<close>, the
  \<^verbatim>\<open>int\<close> sum is that number. The function reads its arguments, \<^verbatim>\<open>n\<close> and \<^verbatim>\<open>mat\<close> only and
  returns a truth value: it has no access to \<^verbatim>\<open>best_tour\<close> or the termination globals and
  changes neither the tour nor anything else. The tour's array holds at least \<open>count\<close>
  cells.
\<close>

theorem Feasible_iff:
  assumes "count tour_p \<le> int (length (cities tour_p))"
  shows "Feasible n mat cty nbr tour_p local_best_p =
           (nbr \<notin> set (take (nat (count tour_p)) (cities tour_p)) \<and>
            int_add (cost tour_p) (mat_at mat (n * cty + nbr)) < cost local_best_p) \<and>
         (in_int (cost tour_p + mat_at mat (n * cty + nbr)) \<longrightarrow>
            Feasible n mat cty nbr tour_p local_best_p =
              (nbr \<notin> set (take (nat (count tour_p)) (cities tour_p)) \<and>
               cost tour_p + mat_at mat (n * cty + nbr) < cost local_best_p))"
  using Visited_iff[OF assms] int_add_fits[of "cost tour_p" "mat_at mat (n * cty + nbr)"]
  by (simp add: Feasible_def)

theorem Feasible_iff_witness:
  "Feasible 3 [0, 1, 2, 3, 0, 4, 5, 6, 0] 1 2 \<lparr>cities = [0, 1, - 1], count = 2, cost = 1\<rparr>
       \<lparr>cities = [], count = 0, cost = 6\<rparr>
   \<and> \<not> Feasible 3 [0, 1, 2, 3, 0, 4, 5, 6, 0] 1 2 \<lparr>cities = [0, 1, - 1], count = 2, cost = 1\<rparr>
       \<lparr>cities = [], count = 0, cost = 5\<rparr>
   \<and> \<not> Feasible 3 [0, 1, 2, 3, 0, 4, 5, 6, 0] 1 1 \<lparr>cities = [0, 1, - 1], count = 2, cost = 1\<rparr>
       \<lparr>cities = [], count = 0, cost = 1000\<rparr>"
  using Feasible_iff[of "\<lparr>cities = [0, 1, - 1], count = 2, cost = 1\<rparr>" 3 "[0, 1, 2, 3, 0, 4, 5, 6, 0]" 1 2
          "\<lparr>cities = [], count = 0, cost = 6\<rparr>"]
        Feasible_iff[of "\<lparr>cities = [0, 1, - 1], count = 2, cost = 1\<rparr>" 3 "[0, 1, 2, 3, 0, 4, 5, 6, 0]" 1 2
          "\<lparr>cities = [], count = 0, cost = 5\<rparr>"]
        Feasible_iff[of "\<lparr>cities = [0, 1, - 1], count = 2, cost = 1\<rparr>" 3 "[0, 1, 2, 3, 0, 4, 5, 6, 0]" 1 1
          "\<lparr>cities = [], count = 0, cost = 1000\<rparr>"]
  by (simp add: mat_at_def in_int_def int_add_def INT_MIN_def INT_MAX_def)

text \<open>
  C4 as stated fails when the sum is not an \<^verbatim>\<open>int\<close>. Three cities, the matrix
  \<open>[[0, 1, 1], [1, 0, 2147483647], [1, 1, 0]]\<close>, the tour \<open>0, 1\<close> of cost 1 and the candidate
  city 2 under the bound 1000000: city 2 is not on the tour, 1 + 2147483647 is not below
  1000000, and \<^verbatim>\<open>Feasible\<close> returns \<^verbatim>\<open>TRUE\<close>, because the \<^verbatim>\<open>int\<close> sum is - 2147483648.
\<close>

theorem Feasible_wraps_counterexample:
  "Feasible 3 wrap_matrix 1 2 \<lparr>cities = [0, 1, - 1, - 1], count = 2, cost = 1\<rparr>
       \<lparr>cities = [], count = 0, cost = 1000000\<rparr> \<and>
   2 \<notin> set (take 2 [0, 1, - 1, - 1 :: int]) \<and>
   \<not> 1 + mat_at wrap_matrix (3 * 1 + 2) < (1000000 :: int) \<and>
   int_add 1 (mat_at wrap_matrix (3 * 1 + 2)) = - 2147483648"
  by (simp add: Feasible_def Visited_def Visited_from.simps wrap_matrix_def mat_at_def int_add_def
      INT_MIN_def)

lemma Check_best_tour_cases:
  "Check_best_tour n mat cty tour_p (best_tour, local_best) =
     (if int_add (cost tour_p) (mat_at mat (cty * n)) < cost best_tour
      then (\<lparr>cities = (copy_cities 0 tour_p (cities best_tour))[nat n := 0], count = n + 1,
             cost = int_add (cost tour_p) (mat_at mat (cty * n))\<rparr>,
            local_best\<lparr>cost := int_add (cost tour_p) (mat_at mat (cty * n))\<rparr>)
      else (best_tour, local_best))"
  by (simp add: Check_best_tour_def Let_def)

lemma copy_cities_all:
  assumes "0 \<le> n" "count tour_p = n" "length dst = nat n + 1" "nat n \<le> length (cities tour_p)"
  shows "(copy_cities 0 tour_p dst)[nat n := 0] = take (nat n) (cities tour_p) @ [0]"
proof (rule nth_equalityI)
  show "length ((copy_cities 0 tour_p dst)[nat n := 0]) = length (take (nat n) (cities tour_p) @ [0])"
    using assms by (simp add: length_copy_cities)
next
  fix i assume "i < length ((copy_cities 0 tour_p dst)[nat n := 0])"
  then have i: "i < nat n + 1" using assms by (simp add: length_copy_cities)
  show "(copy_cities 0 tour_p dst)[nat n := 0] ! i = (take (nat n) (cities tour_p) @ [0]) ! i"
  proof (cases "i = nat n")
    case True
    then show ?thesis using assms by (simp add: length_copy_cities nth_append)
  next
    case False
    then have "i < nat n" using i by simp
    moreover from this have "int i < n" by linarith
    ultimately show ?thesis using assms False by (simp add: nth_copy_cities nth_append)
  qed
qed

text \<open>
  C3, with the sum as the program computes it. \<^verbatim>\<open>Check_best_tour\<close> replaces \<^verbatim>\<open>best_tour\<close>
  exactly when the \<^verbatim>\<open>int\<close> sum of the tour's cost and the edge from \<open>city\<close> (the last city
  of the tour, as \<^verbatim>\<open>Search\<close> calls it) back to city 0 is strictly below the best cost. It
  then stores that sum as the cost, the count \<open>n + 1\<close> and, for a tour of \<open>n\<close> cities, the
  tour's cities followed by 0. Otherwise (equal cost included) the cities, count and cost
  of \<^verbatim>\<open>best_tour\<close> stay as they are. When the tour's cost plus the edge is an \<^verbatim>\<open>int\<close>, the
  \<^verbatim>\<open>int\<close> sum is that number: the test and the stored cost are those of the candidate's
  total cost.
\<close>

theorem Check_best_tour_strict:
  assumes "Check_best_tour n mat cty tour_p (best_tour, local_best) = (best_tour', local_best')"
  shows "((best_tour' \<noteq> best_tour) = (int_add (cost tour_p) (mat_at mat (cty * n)) < cost best_tour)) \<and>
         (int_add (cost tour_p) (mat_at mat (cty * n)) < cost best_tour \<longrightarrow>
            cost best_tour' = int_add (cost tour_p) (mat_at mat (cty * n)) \<and> count best_tour' = n + 1 \<and>
            (0 \<le> n \<and> count tour_p = n \<and> length (cities best_tour) = nat n + 1 \<and>
             nat n \<le> length (cities tour_p) \<longrightarrow>
               cities best_tour' = take (nat n) (cities tour_p) @ [0])) \<and>
         (\<not> int_add (cost tour_p) (mat_at mat (cty * n)) < cost best_tour \<longrightarrow>
            cities best_tour' = cities best_tour \<and> count best_tour' = count best_tour \<and>
            cost best_tour' = cost best_tour) \<and>
         (in_int (cost tour_p + mat_at mat (cty * n)) \<longrightarrow>
            ((best_tour' \<noteq> best_tour) = (cost tour_p + mat_at mat (cty * n) < cost best_tour)) \<and>
            (cost tour_p + mat_at mat (cty * n) < cost best_tour \<longrightarrow>
               cost best_tour' = cost tour_p + mat_at mat (cty * n)))"
proof -
  let ?c = "int_add (cost tour_p) (mat_at mat (cty * n))"
  have main: "((best_tour' \<noteq> best_tour) = (?c < cost best_tour)) \<and>
         (?c < cost best_tour \<longrightarrow>
            cost best_tour' = ?c \<and> count best_tour' = n + 1 \<and>
            (0 \<le> n \<and> count tour_p = n \<and> length (cities best_tour) = nat n + 1 \<and>
             nat n \<le> length (cities tour_p) \<longrightarrow>
               cities best_tour' = take (nat n) (cities tour_p) @ [0])) \<and>
         (\<not> ?c < cost best_tour \<longrightarrow>
            cities best_tour' = cities best_tour \<and> count best_tour' = count best_tour \<and>
            cost best_tour' = cost best_tour)"
  proof (cases "?c < cost best_tour")
    case True
    then have b: "best_tour' = \<lparr>cities = (copy_cities 0 tour_p (cities best_tour))[nat n := 0],
               count = n + 1, cost = ?c\<rparr>"
      using assms by (simp add: Check_best_tour_cases)
    have "cost best_tour' \<noteq> cost best_tour" using b True by simp
    then have "best_tour' \<noteq> best_tour" by auto
    moreover have "cities best_tour' = take (nat n) (cities tour_p) @ [0]"
      if "0 \<le> n" "count tour_p = n" "length (cities best_tour) = nat n + 1" "nat n \<le> length (cities tour_p)"
      using b copy_cities_all[OF that] by simp
    ultimately show ?thesis using True b by simp
  next
    case False
    then have "best_tour' = best_tour" using assms by (simp add: Check_best_tour_cases)
    then show ?thesis using False by simp
  qed
  have "?c = cost tour_p + mat_at mat (cty * n)" if "in_int (cost tour_p + mat_at mat (cty * n))"
    using that by (rule int_add_fits)
  then show ?thesis using main by metis
qed

theorem Check_best_tour_strict_witness:
  "Check_best_tour 2 [0, 5, 5, 0] 1 \<lparr>cities = [0, 1], count = 2, cost = 5\<rparr>
       (\<lparr>cities = [0, 1, 0], count = 3, cost = 10\<rparr>, \<lparr>cities = [], count = 0, cost = 10\<rparr>)
     = (\<lparr>cities = [0, 1, 0], count = 3, cost = 10\<rparr>, \<lparr>cities = [], count = 0, cost = 10\<rparr>)
   \<and> fst (Check_best_tour 2 [0, 5, 5, 0] 1 \<lparr>cities = [0, 1], count = 2, cost = 5\<rparr>
       (initial_best_tour 2, \<lparr>cities = [], count = 0, cost = INFINITY\<rparr>))
     = \<lparr>cities = [0, 1, 0], count = 3, cost = 10\<rparr>"
proof -
  let ?t = "\<lparr>cities = [0, 1], count = 2, cost = 5\<rparr>"
  let ?b = "\<lparr>cities = [0, 1, 0], count = 3, cost = 10\<rparr>"
  let ?l = "\<lparr>cities = [], count = 0, cost = 10\<rparr>"
  let ?li = "\<lparr>cities = [], count = 0, cost = INFINITY\<rparr>"
  obtain b1 l1 where r1: "Check_best_tour 2 [0, 5, 5, 0] 1 ?t (?b, ?l) = (b1, l1)"
    by (metis surj_pair)
  obtain b2 l2 where r2: "Check_best_tour 2 [0, 5, 5, 0] 1 ?t (initial_best_tour 2, ?li) = (b2, l2)"
    by (metis surj_pair)
  have fits: "in_int (cost ?t + mat_at [0, 5, 5, 0] (1 * 2))"
    by (simp add: mat_at_def in_int_def INT_MIN_def INT_MAX_def)
  have a: "int_add (cost ?t) (mat_at [0, 5, 5, 0] (1 * 2)) = 10"
    using int_add_fits[OF fits] by (simp add: mat_at_def)
  have "b1 = ?b"
    using Check_best_tour_strict[OF r1] a by simp
  moreover have "l1 = ?l" using r1 a by (simp add: Check_best_tour_cases)
  moreover have "b2 = ?b"
    using Check_best_tour_strict[OF r2] a
    by (simp add: initial_best_tour_def Initialize_tour_def INFINITY_def NO_CITY_def)
  ultimately show ?thesis using r1 r2 by simp
qed

text \<open>
  C3 as stated fails when the candidate's total cost is not an \<^verbatim>\<open>int\<close>. Two cities, the
  matrix \<open>[[0, 5], [2147483647, 0]]\<close>, the tour \<open>0, 1\<close> of cost 5 and \<^verbatim>\<open>best_tour\<close> as \<^verbatim>\<open>main\<close>
  initialises it: the total cost 5 + 2147483647 is not below the best cost 1000000, and
  \<^verbatim>\<open>Check_best_tour\<close> replaces \<^verbatim>\<open>best_tour\<close> by the tour \<open>0, 1, 0\<close> with the cost
  - 2147483644.
\<close>

theorem Check_best_tour_wraps_counterexample:
  "fst (Check_best_tour 2 [0, 5, 2147483647, 0] 1 \<lparr>cities = [0, 1, - 1], count = 2, cost = 5\<rparr>
        (initial_best_tour 2, initial_local_best))
     = \<lparr>cities = [0, 1, 0], count = 3, cost = - 2147483644\<rparr> \<and>
   cost (initial_best_tour 2) = 1000000 \<and>
   \<not> 5 + mat_at [0, 5, 2147483647, 0] (1 * 2) < cost (initial_best_tour 2)"
  by (simp add: Check_best_tour_cases copy_cities.simps int_add_def INT_MIN_def mat_at_def
      initial_best_tour_def Initialize_tour_def INFINITY_def NO_CITY_def initial_local_best_def
      numeral_3_eq_3 numeral_2_eq_2)

section \<open>Splitting a stack\<close>


lemma split_move_spec:
  "i = 2 * int m + 1 \<Longrightarrow> st = (my, new, int m) \<Longrightarrow> tp \<le> int (length my) \<Longrightarrow>
   split_move i tp st = (my', new', nt) \<Longrightarrow>
     nt = (if i < tp then tp div 2 else int m) \<and> length my' = length my \<and> length new' = length new \<and>
     (\<forall>j < length new. new' ! j = (if m \<le> j \<and> int j < tp div 2 then my ! (2 * j + 1) else new ! j)) \<and>
     (\<forall>j < length my. my' ! j = (if odd j \<and> i \<le> int j \<and> int j < tp then None else my ! j))"
proof (induction i tp st arbitrary: m my new rule: split_move.induct)
  case (1 i tp st)
  show ?case
  proof (cases "i < tp")
    case False
    then have "split_move i tp st = (my, new, int m)"
      using "1.prems"(2) by (subst split_move.simps) simp
    then show ?thesis using "1.prems" False by auto
  next
    case True
    let ?my1 = "my[nat i := None]"
    let ?new1 = "new[nat (int m) := my ! nat i]"
    have step: "split_move i tp st = split_move (i + 2) tp (?my1, ?new1, int m + 1)"
      using True "1.prems"(2) by (subst split_move.simps) simp
    have i_nat: "nat i = 2 * m + 1" using "1.prems"(1) by simp
    have IH: "nt = (if i + 2 < tp then tp div 2 else int (Suc m)) \<and> length my' = length ?my1 \<and>
        length new' = length ?new1 \<and>
        (\<forall>j < length ?new1. new' ! j = (if Suc m \<le> j \<and> int j < tp div 2 then ?my1 ! (2 * j + 1) else ?new1 ! j)) \<and>
        (\<forall>j < length ?my1. my' ! j = (if odd j \<and> i + 2 \<le> int j \<and> int j < tp then None else ?my1 ! j))"
      using "1.IH"[OF "1.prems"(2)[symmetric] refl True, where m = "Suc m" and my = ?my1 and new = ?new1]
        True "1.prems" step by auto
    have nt: "nt = (if i < tp then tp div 2 else int m)"
    proof -
      have "\<not> i + 2 < tp \<Longrightarrow> tp div 2 = int m + 1" using True "1.prems"(1) by presburger
      then show ?thesis using IH True by auto
    qed
    have new: "new' ! j = (if m \<le> j \<and> int j < tp div 2 then my ! (2 * j + 1) else new ! j)"
      if "j < length new" for j
    proof (cases "j = m")
      case True
      then show ?thesis using IH that i_nat \<open>i < tp\<close> "1.prems"(1) by auto
    next
      case False
      have "2 * j + 1 \<noteq> nat i" using False i_nat by presburger
      then show ?thesis using IH that False by auto
    qed
    have my: "my' ! j = (if odd j \<and> i \<le> int j \<and> int j < tp then None else my ! j)"
      if "j < length my" for j
    proof (cases "j = nat i")
      case True
      then show ?thesis using IH that i_nat \<open>i < tp\<close> "1.prems"(1) by auto
    next
      case False
      have "j \<noteq> 2 * m + 1" using False i_nat by simp
      then have "odd j \<Longrightarrow> i \<le> int j \<Longrightarrow> i + 2 \<le> int j" using "1.prems"(1) by presburger
      then show ?thesis using IH that False by auto
    qed
    show ?thesis using nt new my IH by simp
  qed
qed

lemma split_compact_spec:
  "k = 2 * int i \<Longrightarrow> 1 \<le> i \<Longrightarrow> st = (my, int i) \<Longrightarrow> tp \<le> int (length my) \<Longrightarrow>
   split_compact k tp st = (my', i') \<Longrightarrow>
     i' = (if k < tp then (tp + 1) div 2 else int i) \<and> length my' = length my \<and>
     (\<forall>j < length my. my' ! j = (if i \<le> j \<and> int j < (tp + 1) div 2 then my ! (2 * j) else my ! j))"
proof (induction k tp st arbitrary: i my rule: split_compact.induct)
  case (1 k tp st)
  show ?case
  proof (cases "k < tp")
    case False
    then have "split_compact k tp st = (my, int i)"
      using "1.prems"(3) by (subst split_compact.simps) simp
    moreover have "\<not> (i \<le> j \<and> int j < (tp + 1) div 2)" for j
      using False "1.prems"(1) by presburger
    ultimately show ?thesis using "1.prems" False by auto
  next
    case True
    let ?my1 = "my[nat (int i) := my ! nat k]"
    have step: "split_compact k tp st = split_compact (k + 2) tp (?my1, int i + 1)"
      using True "1.prems"(3) by (subst split_compact.simps) simp
    have k_nat: "nat k = 2 * i" using "1.prems"(1) by simp
    have IH: "i' = (if k + 2 < tp then (tp + 1) div 2 else int (Suc i)) \<and> length my' = length ?my1 \<and>
        (\<forall>j < length ?my1. my' ! j = (if Suc i \<le> j \<and> int j < (tp + 1) div 2 then ?my1 ! (2 * j) else ?my1 ! j))"
      using "1.IH"[OF "1.prems"(3)[symmetric] True, where i = "Suc i" and my = ?my1]
        True "1.prems" step by auto
    have i': "i' = (if k < tp then (tp + 1) div 2 else int i)"
    proof -
      have "\<not> k + 2 < tp \<Longrightarrow> (tp + 1) div 2 = int i + 1" using True "1.prems"(1) by presburger
      then show ?thesis using IH True by auto
    qed
    have my: "my' ! j = (if i \<le> j \<and> int j < (tp + 1) div 2 then my ! (2 * j) else my ! j)"
      if "j < length my" for j
    proof (cases "j = i")
      case True
      have "int i < (tp + 1) div 2" using \<open>k < tp\<close> "1.prems"(1) by presburger
      then show ?thesis using IH that k_nat True by auto
    next
      case False
      have "Suc i \<le> j \<Longrightarrow> 2 * j \<noteq> i" by presburger
      then show ?thesis using IH that False by auto
    qed
    show ?thesis using i' my IH by simp
  qed
qed

lemma mset_even_odd:
  "k \<le> length a \<Longrightarrow>
   mset (map (\<lambda>j. a ! (2 * j)) [0..<(k + 1) div 2]) + mset (map (\<lambda>j. a ! (2 * j + 1)) [0..<k div 2])
     = mset (take k a)"
proof (induction k)
  case 0
  then show ?case by simp
next
  case (Suc k)
  then have IH: "mset (map (\<lambda>j. a ! (2 * j)) [0..<(k + 1) div 2]) + mset (map (\<lambda>j. a ! (2 * j + 1)) [0..<k div 2])
     = mset (take k a)" and lt: "k < length a" by auto
  have tk: "mset (take (Suc k) a) = mset (take k a) + {#a ! k#}"
    using lt by (simp add: take_Suc_conv_app_nth)
  show ?case
  proof (cases "even k")
    case True
    then have e: "(Suc k + 1) div 2 = Suc ((k + 1) div 2)" "Suc k div 2 = k div 2" "2 * ((k + 1) div 2) = k"
      by presburger+
    show ?thesis using IH tk e by (simp del: mset_map)
  next
    case False
    then have e: "(Suc k + 1) div 2 = (k + 1) div 2" "Suc k div 2 = Suc (k div 2)" "2 * (k div 2) + 1 = k"
      by presburger+
    show ?thesis using IH tk e by (simp del: mset_map)
  qed
qed


lemma Split_stack_slots:
  assumes tp: "1 \<le> stk_top s" "stk_top s \<le> int (length (stk s))"
    and sp: "Split_stack s g = (s', g')"
  shows "\<exists>donated. new_stack g' = Some donated \<and> length donated = nat (stk_top s) \<and>
           (\<forall>j < nat (stk_top s div 2). donated ! j = stk s ! (2 * j + 1))"
    and "stk_top s' = (stk_top s + 1) div 2"
    and "new_stack_top g' = stk_top s div 2"
    and "new_stack_size g' = stk_top s"
    and "length (stk s') = length (stk s)"
    and "stk_size s' = stk_size s"
    and "\<forall>j < nat ((stk_top s + 1) div 2). stk s' ! j = stk s ! (2 * j)"
    and "threads_in_cond_wait g' = threads_in_cond_wait g"
proof -
  define K where "K = nat (stk_top s)"
  have K: "stk_top s = int K" "1 \<le> K" "K \<le> length (stk s)" using tp by (auto simp: K_def)
  obtain my1 new1 ntop where mv: "split_move 1 (int K) (stk s, malloc_slots (int K), 0) = (my1, new1, ntop)"
    by (metis prod_cases3)
  obtain my2 i where cp: "split_compact 2 (int K) (my1, 1) = (my2, i)"
    by (metis surj_pair)
  have res: "s' = s\<lparr>stk := my2, stk_top := i\<rparr>"
    "g' = g\<lparr>new_stack := Some new1, new_stack_size := int K, new_stack_top := ntop\<rparr>"
    using sp mv cp K(1) by (simp_all add: Split_stack_def Let_def)
  have M: "ntop = (if 1 < int K then int K div 2 else 0)" "length my1 = length (stk s)"
      "length new1 = K"
      "\<forall>j < K. new1 ! j = (if int j < int K div 2 then stk s ! (2 * j + 1) else None)"
      "\<forall>j < length (stk s). my1 ! j = (if odd j \<and> 1 \<le> int j \<and> int j < int K then None else stk s ! j)"
    using split_move_spec[of 1 0 "(stk s, malloc_slots (int K), 0)" "stk s" "malloc_slots (int K)" "int K" my1 new1 ntop]
      mv K by (simp_all add: malloc_slots_def)
  have C: "i = (if 2 < int K then (int K + 1) div 2 else 1)" "length my2 = length my1"
      "\<forall>j < length my1. my2 ! j = (if 1 \<le> j \<and> int j < (int K + 1) div 2 then my1 ! (2 * j) else my1 ! j)"
    using split_compact_spec[of 2 1 "(my1, 1)" my1 "int K" my2 i] cp K M(2) by simp_all
  have ntop: "ntop = int K div 2" using M(1) K(2) by (cases "1 < int K") auto
  have i: "i = (int K + 1) div 2" using C(1) K(2) by (cases "2 < int K") auto
  have don: "\<forall>j < nat (int K div 2). new1 ! j = stk s ! (2 * j + 1)"
  proof (intro allI impI)
    fix j assume "j < nat (int K div 2)"
    then have "int j < int K div 2" "j < K" by linarith+
    then show "new1 ! j = stk s ! (2 * j + 1)" using M(4) by simp
  qed
  have keep: "\<forall>j < nat ((int K + 1) div 2). my2 ! j = stk s ! (2 * j)"
  proof (intro allI impI)
    fix j assume j: "j < nat ((int K + 1) div 2)"
    then have lt: "int j < (int K + 1) div 2" "2 * j < K" "j < length (stk s)" "2 * j < length (stk s)"
      using K(3) by linarith+
    show "my2 ! j = stk s ! (2 * j)"
    proof (cases "1 \<le> j")
      case True
      then have "my2 ! j = my1 ! (2 * j)" using C(3) lt M(2) by simp
      also have "\<dots> = stk s ! (2 * j)" using M(5) lt by simp
      finally show ?thesis .
    next
      case False
      then have "j = 0" by simp
      then show ?thesis using C(3) M(5) M(2) lt by simp
    qed
  qed
  show "\<exists>donated. new_stack g' = Some donated \<and> length donated = nat (stk_top s) \<and>
           (\<forall>j < nat (stk_top s div 2). donated ! j = stk s ! (2 * j + 1))"
    using res M(3) don K(1) by simp
  show "stk_top s' = (stk_top s + 1) div 2" using res i K(1) by simp
  show "new_stack_top g' = stk_top s div 2" using res ntop K(1) by simp
  show "new_stack_size g' = stk_top s" using res K(1) by simp
  show "length (stk s') = length (stk s)" using res C(2) M(2) by simp
  show "stk_size s' = stk_size s" using res by simp
  show "\<forall>j < nat ((stk_top s + 1) div 2). stk s' ! j = stk s ! (2 * j)" using res keep K(1) by simp
  show "threads_in_cond_wait g' = threads_in_cond_wait g" using res by simp
qed

text \<open>
  C5. For a stack of \<open>k \<ge> 2\<close> frames, \<^verbatim>\<open>Split_stack\<close> puts the frames at the odd positions
  1, 3, 5, ... into \<^verbatim>\<open>new_stack\<close> in their order and compacts the frames at the even
  positions 0, 2, 4, ... at the bottom of the caller's array. The donated stack has
  \<open>k div 2\<close> frames and the retained one \<open>(k + 1) div 2\<close>; the sizes add up to \<open>k\<close> and the
  two stacks together hold the frames of the original stack, as multisets.
\<close>

theorem Split_stack_interleaves:
  assumes "2 \<le> stk_top s" and "stk_top s \<le> int (length (stk s))"
    and "Split_stack s g = (s', g')"
  shows "new_stack g' \<noteq> None \<and>
         new_stack_top g' = stk_top s div 2 \<and>
         stk_top s' = (stk_top s + 1) div 2 \<and>
         stk_top s' + new_stack_top g' = stk_top s \<and>
         take (nat (new_stack_top g')) (the (new_stack g'))
           = map (\<lambda>j. stk s ! (2 * j + 1)) [0..<nat (stk_top s div 2)] \<and>
         take (nat (stk_top s')) (stk s')
           = map (\<lambda>j. stk s ! (2 * j)) [0..<nat ((stk_top s + 1) div 2)] \<and>
         mset (take (nat (stk_top s')) (stk s')) + mset (take (nat (new_stack_top g')) (the (new_stack g')))
           = mset (take (nat (stk_top s)) (stk s))"
proof -
  have tp: "1 \<le> stk_top s" using assms(1) by simp
  note S = Split_stack_slots[OF tp assms(2,3)]
  obtain donated where d: "new_stack g' = Some donated" "length donated = nat (stk_top s)"
      "\<forall>j < nat (stk_top s div 2). donated ! j = stk s ! (2 * j + 1)"
    using S(1) by blast
  define K where "K = nat (stk_top s)"
  have K: "stk_top s = int K" "K \<le> length (stk s)" using assms(1,2) by (auto simp: K_def)
  have h: "nat (int K div 2) = K div 2" "nat ((int K + 1) div 2) = (K + 1) div 2"
    by linarith+
  have don: "take (K div 2) donated = map (\<lambda>j. stk s ! (2 * j + 1)) [0..<K div 2]"
    using d(2,3) K(1) h by (intro nth_equalityI) auto
  have keep: "take ((K + 1) div 2) (stk s') = map (\<lambda>j. stk s ! (2 * j)) [0..<(K + 1) div 2]"
    using S(5,7) K h by (intro nth_equalityI) auto
  have sum: "(int K + 1) div 2 + int K div 2 = int K" by presburger
  show ?thesis
    using d(1) S(2,3) don keep K(1) h sum mset_even_odd[OF K(2)]
    by (simp del: mset_map)
qed

theorem Split_stack_interleaves_witness:
  "(let a = \<lparr>elt_tour_p = first_tour 4, elt_city = 1, elt_cost = 7\<rparr>;
        b = \<lparr>elt_tour_p = first_tour 4, elt_city = 2, elt_cost = 8\<rparr>;
        c = \<lparr>elt_tour_p = first_tour 4, elt_city = 3, elt_cost = 9\<rparr>;
        s = \<lparr>stk = [Some a, Some b, Some c, None], stk_top = 3, stk_size = 4\<rparr>;
        r = Split_stack s initial_globals
    in stk_top (fst r) = 2 \<and> new_stack_top (snd r) = 1 \<and>
       take 2 (stk (fst r)) = [Some a, Some c] \<and>
       take 1 (the (new_stack (snd r))) = [Some b])"
proof -
  let ?a = "\<lparr>elt_tour_p = first_tour 4, elt_city = 1, elt_cost = 7\<rparr>"
  let ?b = "\<lparr>elt_tour_p = first_tour 4, elt_city = 2, elt_cost = 8\<rparr>"
  let ?c = "\<lparr>elt_tour_p = first_tour 4, elt_city = 3, elt_cost = 9\<rparr>"
  let ?s = "\<lparr>stk = [Some ?a, Some ?b, Some ?c, None], stk_top = 3, stk_size = 4\<rparr>"
  let ?r = "Split_stack ?s initial_globals"
  have h1: "2 \<le> stk_top ?s" by simp
  have h2: "stk_top ?s \<le> int (length (stk ?s))" by simp
  have h3: "Split_stack ?s initial_globals = (fst ?r, snd ?r)" by simp
  note T = Split_stack_interleaves[OF h1 h2 h3]
  have tops: "new_stack_top (snd ?r) = 1" "stk_top (fst ?r) = 2" using T by simp_all
  have e: "[0..<2] = [0, Suc 0]" by (simp add: upt_rec)
  have "take 1 (the (new_stack (snd ?r))) = [Some ?b]" using T tops by simp
  moreover have "take 2 (stk (fst ?r)) = [Some ?a, Some ?c]" using T tops e by simp
  ultimately show ?thesis using tops by (simp add: Let_def)
qed


section \<open>The first stack of a worker\<close>

text \<open>
  C6, the recorded edge cost. \<^verbatim>\<open>Fill_stack\<close> adds \<^verbatim>\<open>mat[i]\<close> to a cost field that nothing has
  initialised. With \<open>n = 2\<close>, one thread, the matrix \<open>[[0, 5], [5, 0]]\<close> and a fresh element
  whose cost field holds 7, the frame for city 1 records the cost 12, and not
  \<^verbatim>\<open>mat[1]\<close>, which is 5.
\<close>

theorem Fill_stack_cost_adds_to_garbage:
  "frames (initial_stack 2 1 [0, 5, 5, 0] garbage_7 0)
     = [\<lparr>elt_tour_p = \<lparr>cities = [0, - 1, - 1], count = 1, cost = 0\<rparr>, elt_city = 1, elt_cost = 12\<rparr>]
   \<and> mat_at [0, 5, 5, 0] 1 = 5"
  by (simp add: initial_stack_def Fill_stack_def c_div_def c_mod_def Let_def fill_from.simps
      malloc_slots_def frames_def first_tour_def Initialize_tour_def NO_CITY_def mat_at_def
      garbage_7_def int_add_def INT_MIN_def numeral_eq_Suc)

section \<open>Termination detection\<close>

text \<open>
  When \<^verbatim>\<open>Terminated\<close> reports termination, the caller's stack is empty, the mailbox is
  empty under the mutex and \<^verbatim>\<open>threads_in_cond_wait\<close> has reached \<^verbatim>\<open>thread_count\<close>.
\<close>

lemma Terminated_reports_termination:
  assumes "Terminated thread_count view others g s = (1, g', s')"
  shows "stk_top s = 0 \<and> new_stack g' = None \<and> threads_in_cond_wait g' \<ge> thread_count \<and> s' = s"
proof -
  have e: "stk_top s = 0"
    using assms
    by (auto simp: Terminated_def Terminated_entry_def Empty_def split: if_splits prod.splits)
  show ?thesis
  proof (cases "threads_in_cond_wait g = thread_count - 1 \<and> new_stack g = None")
    case True
    then show ?thesis using assms e
      by (auto simp: Terminated_def Terminated_entry_def Empty_def)
  next
    case False
    then have "Terminated_wake thread_count (others (g\<lparr>threads_in_cond_wait := threads_in_cond_wait g + 1\<rparr>)) s
                 = (1, g', s')"
      using assms e by (auto simp: Terminated_def Terminated_entry_def Empty_def)
    then show ?thesis using e by (auto simp: Terminated_wake_def split: if_splits)
  qed
qed

text \<open>
  A wake-up without a donation. Two threads; the caller's stack is empty and the other
  thread is still working, so the caller waits. \<^verbatim>\<open>pthread_cond_wait\<close> returns 0 while the
  globals are as the caller left them (\<open>others\<close> is the identity).
  \<^verbatim>\<open>threads_in_cond_wait\<close> is 1, below \<^verbatim>\<open>thread_count\<close>, so \<^verbatim>\<open>Terminated\<close> installs the
  \<^verbatim>\<open>NULL\<close> mailbox as the stack with \<^verbatim>\<open>top = new_stack_top = 0\<close> and returns 0.
\<close>

lemma Terminated_after_wake_without_donation:
  "Terminated 2 \<lparr>seen_waiting = 0, seen_mailbox_empty = True, trylock_ok = True\<rparr> id initial_globals
       \<lparr>stk = malloc_slots 6, stk_top = 0, stk_size = 6\<rparr>
     = (0, initial_globals, \<lparr>stk = [], stk_top = 0, stk_size = 0\<rparr>)"
  by (simp add: Terminated_def Terminated_entry_def Terminated_wake_def Empty_def initial_globals_def)

text \<open>
  C2, at that wake-up, seen from \<^verbatim>\<open>pthread_cond_wait\<close> on: one of two threads waits, the
  mailbox is empty. The woken thread does not go back to the idle check: it takes the
  empty mailbox as its stack, decrements \<^verbatim>\<open>threads_in_cond_wait\<close> and returns 0.
\<close>

theorem Terminated_wake_takes_empty_mailbox:
  "Terminated_wake 2
       \<lparr>threads_in_cond_wait = 1, new_stack = None, new_stack_size = 0, new_stack_top = 0\<rparr>
       \<lparr>stk = malloc_slots 6, stk_top = 0, stk_size = 6\<rparr>
     = (0,
        \<lparr>threads_in_cond_wait = 0, new_stack = None, new_stack_size = 0, new_stack_top = 0\<rparr>,
        \<lparr>stk = [], stk_top = 0, stk_size = 0\<rparr>)"
  by (simp add: Terminated_wake_def)

section \<open>Invalid configurations\<close>

lemma Read_mat_n: "fst (Read_mat heap toks) = (case toks of [] \<Rightarrow> 0 | k # rest \<Rightarrow> k)"
  by (simp add: Read_mat_def Let_def)

text \<open>
  A file with the matrix, a file that ends after two of the four weights, and a file with
  a negative number of cities, read into a block whose cells hold 7.
\<close>

lemma Read_mat_examples:
  "Read_mat garbage_7 [2, 0, 5, 5, 0] = (2, [0, 5, 5, 0])"
  "Read_mat garbage_7 [2, 0, 5] = (2, [0, 5, 7, 7])"
  "Read_mat garbage_7 [- 1, 4] = (- 1, [7])"
  by (simp_all add: Read_mat_def Let_def read_rows.simps read_row.simps garbage_7_def upt_rec
      numeral_eq_Suc)

text \<open>
  C9. With a wrong argument count, a file that cannot be opened, a thread count below 1
  or a thread count of at least \<open>n\<close> (the number \<^verbatim>\<open>Read_mat\<close> has read), \<^verbatim>\<open>main\<close> writes the
  three lines of the usage message to \<^verbatim>\<open>stderr\<close> (after the line \<^verbatim>\<open>Can't open ...\<close> when
  the file is the problem), then calls \<^verbatim>\<open>exit\<close>, and that is all it does: it creates no
  thread.
\<close>

theorem invalid_configuration_usage:
  assumes "1 + int (length args) \<noteq> 3 \<or> fopen (args ! 1) = None \<or> strtol (args ! 0) < 1 \<or>
           fst (Read_mat heap (the (fopen (args ! 1)))) \<le> strtol (args ! 0)"
  shows "main strtol fopen heap prog_name args =
           (if 1 + int (length args) = 3 \<and> fopen (args ! 1) = None
            then [Stderr (''Can't open '' @ args ! 0 @ ''\<newline>'')] else []) @
           [Stderr (''usage: '' @ prog_name @ '' <thread_count> <matrix file>\<newline>''),
            Stderr ''thread_count must be  greater than or equal to 1\<newline>'',
            Stderr ''and less than number of cities\<newline>'',
            Exit 0]
         \<and> \<not> list_ex creates_thread (main strtol fopen heap prog_name args)
         \<and> last (main strtol fopen heap prog_name args) = Exit 0"
proof -
  have m: "main strtol fopen heap prog_name args =
           (if 1 + int (length args) = 3 \<and> fopen (args ! 1) = None
            then [Stderr (''Can't open '' @ args ! 0 @ ''\<newline>'')] else []) @ Usage prog_name"
    using assms by (auto simp: main_def Let_def split: option.splits prod.splits)
  have "\<not> list_ex creates_thread (main strtol fopen heap prog_name args)"
    unfolding m by (simp add: Usage_def creates_thread_def)
  moreover have "last (main strtol fopen heap prog_name args) = Exit 0"
    unfolding m by (simp add: Usage_def)
  ultimately show ?thesis using m by (simp add: Usage_def)
qed

theorem invalid_configuration_usage_witness:
  "main strtol_digit one_file garbage_7 ''tsp'' [''2'', ''m.txt'']
     = [Stderr ''usage: tsp <thread_count> <matrix file>\<newline>'',
        Stderr ''thread_count must be  greater than or equal to 1\<newline>'',
        Stderr ''and less than number of cities\<newline>'', Exit 0]
   \<and> main strtol_digit one_file garbage_7 ''tsp'' [''1'', ''none.txt'']
     = [Stderr ''Can't open 1\<newline>'',
        Stderr ''usage: tsp <thread_count> <matrix file>\<newline>'',
        Stderr ''thread_count must be  greater than or equal to 1\<newline>'',
        Stderr ''and less than number of cities\<newline>'', Exit 0]
   \<and> main strtol_digit one_file garbage_7 ''tsp'' [''1'']
     = [Stderr ''usage: tsp <thread_count> <matrix file>\<newline>'',
        Stderr ''thread_count must be  greater than or equal to 1\<newline>'',
        Stderr ''and less than number of cities\<newline>'', Exit 0]
   \<and> main strtol_digit one_file garbage_7 ''tsp'' [''0'', ''m.txt'']
     = [Stderr ''usage: tsp <thread_count> <matrix file>\<newline>'',
        Stderr ''thread_count must be  greater than or equal to 1\<newline>'',
        Stderr ''and less than number of cities\<newline>'', Exit 0]
   \<and> main strtol_digit one_file garbage_7 ''tsp'' [''1'', ''m.txt''] = [Create_thread 0]"
proof -
  have "main strtol_digit one_file garbage_7 ''tsp'' [''2'', ''m.txt'']
     = [Stderr ''usage: tsp <thread_count> <matrix file>\<newline>'',
        Stderr ''thread_count must be  greater than or equal to 1\<newline>'',
        Stderr ''and less than number of cities\<newline>'', Exit 0]"
    using invalid_configuration_usage[of "[''2'', ''m.txt'']" one_file strtol_digit garbage_7 "''tsp''"]
    by (simp add: strtol_digit_def one_file_def Read_mat_n)
  moreover have "main strtol_digit one_file garbage_7 ''tsp'' [''1'', ''none.txt'']
     = [Stderr ''Can't open 1\<newline>'',
        Stderr ''usage: tsp <thread_count> <matrix file>\<newline>'',
        Stderr ''thread_count must be  greater than or equal to 1\<newline>'',
        Stderr ''and less than number of cities\<newline>'', Exit 0]"
    using invalid_configuration_usage[of "[''1'', ''none.txt'']" one_file strtol_digit garbage_7 "''tsp''"]
    by (simp add: strtol_digit_def one_file_def Read_mat_n)
  moreover have "main strtol_digit one_file garbage_7 ''tsp'' [''1'']
     = [Stderr ''usage: tsp <thread_count> <matrix file>\<newline>'',
        Stderr ''thread_count must be  greater than or equal to 1\<newline>'',
        Stderr ''and less than number of cities\<newline>'', Exit 0]"
    using invalid_configuration_usage[of "[''1'']" one_file strtol_digit garbage_7 "''tsp''"]
    by (simp add: strtol_digit_def one_file_def Read_mat_n)
  moreover have "main strtol_digit one_file garbage_7 ''tsp'' [''0'', ''m.txt'']
     = [Stderr ''usage: tsp <thread_count> <matrix file>\<newline>'',
        Stderr ''thread_count must be  greater than or equal to 1\<newline>'',
        Stderr ''and less than number of cities\<newline>'', Exit 0]"
    using invalid_configuration_usage[of "[''0'', ''m.txt'']" one_file strtol_digit garbage_7 "''tsp''"]
    by (simp add: strtol_digit_def one_file_def Read_mat_n)
  moreover have "main strtol_digit one_file garbage_7 ''tsp'' [''1'', ''m.txt''] = [Create_thread 0]"
    by (simp add: main_def strtol_digit_def one_file_def Read_mat_def Let_def upt_rec)
  ultimately show ?thesis by blast
qed

section \<open>Stack operations on the live elements\<close>
lemma frames_append_slot:
  assumes "k \<le> length arr" "k < length arr'" "take k arr' = take k arr"
  shows "map the (take (Suc k) (arr'[k := Some f])) = map the (take k arr) @ [f]"
proof -
  have "take (Suc k) (arr'[k := Some f]) = take k (arr'[k := Some f]) @ [arr'[k := Some f] ! k]"
    using assms(2) by (simp add: take_Suc_conv_app_nth)
  then show ?thesis using assms by simp
qed

lemma Push_frames:
  assumes "wf_stack s"
  shows "frames (Push n tour_p cty cst s)
           = frames s @ [\<lparr>elt_tour_p = Dup_tour n tour_p, elt_city = cty, elt_cost = cst\<rparr>]"
    and "wf_stack (Push n tour_p cty cst s)"
proof -
  let ?f = "\<lparr>elt_tour_p = Dup_tour n tour_p, elt_city = cty, elt_cost = cst\<rparr>"
  define K where "K = nat (stk_top s)"
  have wf: "stk_top s = int K" "int K \<le> stk_size s" "int (length (stk s)) = stk_size s" "1 \<le> stk_size s"
      "list_all (\<lambda>x. x \<noteq> None) (take K (stk s))"
    using assms by (auto simp: wf_stack_def K_def)
  define s1 where "s1 = (if stk_top s = stk_size s
                then s\<lparr>stk := realloc_slots (stk s) (stk_size s * 2), stk_size := stk_size s * 2\<rparr>
                else s)"
  have P: "Push n tour_p cty cst s = s1\<lparr>stk := (stk s1)[nat (stk_top s1) := Some ?f], stk_top := stk_top s1 + 1\<rparr>"
    by (simp add: Push_def s1_def Let_def)
  have s1: "stk_top s1 = int K" "K < length (stk s1)" "int (length (stk s1)) = stk_size s1"
      "take K (stk s1) = take K (stk s)"
  proof -
    show "stk_top s1 = int K" using wf by (simp add: s1_def)
    show "K < length (stk s1)" using wf by (auto simp: s1_def realloc_slots_def)
    show "int (length (stk s1)) = stk_size s1" using wf by (auto simp: s1_def realloc_slots_def)
    show "take K (stk s1) = take K (stk s)" using wf by (auto simp: s1_def realloc_slots_def)
  qed
  have fr: "map the (take (Suc K) ((stk s1)[K := Some ?f])) = map the (take K (stk s)) @ [?f]"
    using frames_append_slot[of K "stk s" "stk s1" ?f] s1 wf by simp
  have nS: "nat (int K + 1) = Suc K" by simp
  show "frames (Push n tour_p cty cst s) = frames s @ [?f]"
    using fr s1(1) wf(1) nS by (simp add: P frames_def)
  have "take (Suc K) ((stk s1)[K := Some ?f]) = take K (stk s) @ [Some ?f]"
    using s1 by (simp add: take_Suc_conv_app_nth)
  then have "list_all (\<lambda>x. x \<noteq> None) (take (Suc K) ((stk s1)[K := Some ?f]))"
    using wf(5) by simp
  then show "wf_stack (Push n tour_p cty cst s)"
    using s1 wf nS by (simp add: P wf_stack_def)
qed

lemma Pop_frames:
  assumes "wf_stack s" "1 \<le> stk_top s"
  shows "\<exists>f s'. Pop s = Some (elt_tour_p f, elt_city f, elt_cost f, s') \<and>
                frames s = frames s' @ [f] \<and> wf_stack s'"
proof -
  define K where "K = nat (stk_top s - 1)"
  have wf: "stk_top s = int K + 1" "int K + 1 \<le> stk_size s" "int (length (stk s)) = stk_size s"
      "1 \<le> stk_size s" "list_all (\<lambda>x. x \<noteq> None) (take (Suc K) (stk s))"
    using assms by (auto simp: wf_stack_def K_def nat_diff_distrib Suc_nat_eq_nat_zadd1)
  have K: "K < length (stk s)" using wf by linarith
  have tk: "take (Suc K) (stk s) = take K (stk s) @ [stk s ! K]"
    using K by (simp add: take_Suc_conv_app_nth)
  then have "stk s ! K \<noteq> None" using wf(5) by simp
  then obtain f where f: "stk s ! K = Some f" by blast
  let ?s' = "s\<lparr>stk := (stk s)[K := None], stk_top := int K\<rparr>"
  have "Pop s = Some (elt_tour_p f, elt_city f, elt_cost f, ?s')"
    using wf(1) K f by (simp add: Pop_def Let_def)
  moreover have "frames s = frames ?s' @ [f]"
    using tk f wf(1) by (simp add: frames_def nat_add_distrib)
  moreover have "wf_stack ?s'"
    using wf tk by (simp add: wf_stack_def)
  ultimately show ?thesis by blast
qed

lemma push_nbrs_frames:
  assumes "wf_stack s"
  shows "wf_stack (push_nbrs k n mat cty tour_p local_best s) \<and>
         set (frames (push_nbrs k n mat cty tour_p local_best s))
           = set (frames s) \<union>
             new_frame n mat cty tour_p ` {nbr. 1 \<le> nbr \<and> nbr \<le> k \<and> Feasible n mat cty nbr tour_p local_best}"
  using assms
proof (induction k n mat cty tour_p local_best s rule: push_nbrs.induct)
  case (1 nbr n mat cty tour_p local_best s)
  show ?case
  proof (cases "nbr > 0")
    case False
    then have "push_nbrs nbr n mat cty tour_p local_best s = s" by (subst push_nbrs.simps) simp
    moreover have "{x. 1 \<le> x \<and> x \<le> nbr \<and> Feasible n mat cty x tour_p local_best} = {}"
      using False by auto
    ultimately show ?thesis using "1.prems" by (simp only: image_empty Un_empty_right)
  next
    case True
    let ?s1 = "if Feasible n mat cty nbr tour_p local_best
              then Push n tour_p nbr (mat_at mat (n * cty + nbr)) s else s"
    have st: "push_nbrs nbr n mat cty tour_p local_best s = push_nbrs (nbr - 1) n mat cty tour_p local_best ?s1"
      using True by (subst push_nbrs.simps) simp
    have wf1: "wf_stack ?s1" using "1.prems" Push_frames(2) by simp
    have fr1: "set (frames ?s1) = set (frames s) \<union>
        new_frame n mat cty tour_p ` {x. x = nbr \<and> Feasible n mat cty x tour_p local_best}"
      using Push_frames(1)[OF "1.prems"] by (auto simp: new_frame_def)
    have IH: "wf_stack (push_nbrs (nbr - 1) n mat cty tour_p local_best ?s1) \<and>
         set (frames (push_nbrs (nbr - 1) n mat cty tour_p local_best ?s1))
           = set (frames ?s1) \<union>
             new_frame n mat cty tour_p ` {x. 1 \<le> x \<and> x \<le> nbr - 1 \<and> Feasible n mat cty x tour_p local_best}"
      using "1.IH"[OF True wf1] .
    have "{x. 1 \<le> x \<and> x \<le> nbr \<and> Feasible n mat cty x tour_p local_best}
          = {x. x = nbr \<and> Feasible n mat cty x tour_p local_best} \<union>
            {x. 1 \<le> x \<and> x \<le> nbr - 1 \<and> Feasible n mat cty x tour_p local_best}"
      using True by auto
    then show ?thesis using IH fr1 st by (simp only: image_Un Un_assoc)
  qed
qed

section \<open>Path costs\<close>
lemma matrix_entry_nonneg:
  assumes "valid_matrix n mat" "0 \<le> a" "a < n" "0 \<le> b" "b < n"
  shows "0 \<le> mat_at mat (n * a + b)"
proof -
  have "n * a \<le> n * (n - 1)" using assms(2,3) by (intro mult_left_mono) auto
  then have "n * a + b < n * n" using assms(5) by (simp add: algebra_simps)
  moreover have "0 \<le> n * a + b" using assms(2,3,4) by simp
  ultimately have "nat (n * a + b) < length mat" using assms(1) by (simp add: valid_matrix_def)
  then have "mat ! nat (n * a + b) \<in> set mat" by simp
  then show ?thesis using assms(1) by (simp add: valid_matrix_def mat_at_def list_all_iff)
qed

lemma matrix_entry_le:
  assumes "valid_matrix n mat" "list_all (\<lambda>x. x \<le> M) mat" "0 \<le> a" "a < n" "0 \<le> b" "b < n"
  shows "mat_at mat (n * a + b) \<le> M"
proof -
  have "n * a \<le> n * (n - 1)" using assms(3,4) by (intro mult_left_mono) auto
  then have "n * a + b < n * n" using assms(6) by (simp add: algebra_simps)
  moreover have "0 \<le> n * a + b" using assms(3,4,5) by simp
  ultimately have "nat (n * a + b) < length mat" using assms(1) by (simp add: valid_matrix_def)
  then have "mat ! nat (n * a + b) \<in> set mat" by simp
  then show ?thesis using assms(2) by (simp add: mat_at_def list_all_iff)
qed

lemma path_cost_le:
  assumes "valid_matrix n mat" "list_all (\<lambda>x. x \<le> M) mat" "0 \<le> M"
  shows "set xs \<subseteq> {0..<n} \<Longrightarrow> path_cost n mat xs \<le> (int (length xs) - 1) * M \<or> xs = []"
proof (induction xs rule: induct_list012)
  case 1
  then show ?case by simp
next
  case (2 a)
  then show ?case by simp
next
  case (3 a b rest)
  have "mat_at mat (n * a + b) \<le> M"
    using matrix_entry_le[OF assms(1,2), of a b] 3(3) by simp
  moreover have "path_cost n mat (b # rest) \<le> (int (length (b # rest)) - 1) * M"
    using 3(2,3) by simp
  ultimately show ?case by (simp add: algebra_simps)
qed

lemma path_cost_snoc:
  "xs \<noteq> [] \<Longrightarrow> path_cost n mat (xs @ [c]) = path_cost n mat xs + mat_at mat (n * last xs + c)"
proof (induction n mat xs rule: path_cost.induct)
  case (1 n mat a b rest)
  then show ?case by simp
next
  case (2 n mat a)
  then show ?case by simp
next
  case (3 n mat)
  then show ?case by simp
qed

lemma path_cost_append_le:
  assumes "valid_matrix n mat" "xs \<noteq> []" "set (xs @ zs) \<subseteq> {0..<n}"
  shows "path_cost n mat xs \<le> path_cost n mat (xs @ zs)"
  using assms(3)
proof (induction zs rule: rev_induct)
  case Nil
  then show ?case by simp
next
  case (snoc z zs)
  have ne: "xs @ zs \<noteq> []" using assms(2) by simp
  have l: "last (xs @ zs) \<in> set (xs @ zs)" using ne by (rule last_in_set)
  have "0 \<le> mat_at mat (n * last (xs @ zs) + z)"
    using matrix_entry_nonneg[OF assms(1), of "last (xs @ zs)" z] l snoc.prems by auto
  moreover have "path_cost n mat (xs @ zs @ [z]) = path_cost n mat (xs @ zs) + mat_at mat (n * last (xs @ zs) + z)"
    using path_cost_snoc[OF ne, of n mat z] by simp
  moreover have "path_cost n mat xs \<le> path_cost n mat (xs @ zs)"
    using snoc by simp
  ultimately show ?case by simp
qed

lemma path_cost_prefix_le:
  assumes "valid_matrix n mat" "xs \<noteq> []" "prefix xs T" "set T \<subseteq> {0..<n}"
  shows "path_cost n mat xs \<le> path_cost n mat T"
proof -
  obtain zs where "T = xs @ zs" using assms(3) by (auto simp: prefix_def)
  then show ?thesis using path_cost_append_le[OF assms(1,2), of zs] assms(4) by simp
qed

lemma complete_tour_split:
  assumes "complete_tour n T"
  shows "T = take (nat n) T @ [0]"
proof -
  have "nat n < length T" using assms(1) by (simp add: complete_tour_def)
  then have "take (Suc (nat n)) T = take (nat n) T @ [T ! nat n]"
    by (rule take_Suc_conv_app_nth)
  moreover have "take (Suc (nat n)) T = T" using assms(1) by (simp add: complete_tour_def)
  moreover have "T ! nat n = 0" using assms(1) by (simp add: complete_tour_def)
  ultimately show ?thesis by simp
qed

lemma complete_tour_set:
  assumes "complete_tour n T" "1 \<le> n"
  shows "set T \<subseteq> {0..<n}"
proof -
  have "set T = set (take (nat n) T @ [0])"
    using complete_tour_split[OF assms(1)] by simp
  also have "\<dots> = {0..<n} \<union> {0}" using assms(1) by (simp add: complete_tour_def)
  finally show ?thesis using assms(2) by auto
qed

section \<open>Extending a frame\<close>
lemma map_nth_take: "m \<le> length xs \<Longrightarrow> map (\<lambda>i. xs ! i) [0..<m] = take m xs"
  by (intro nth_equalityI) auto

lemma good_frame_facts:
  assumes "good_frame n mat f"
  shows "length (visited_part f) = nat (count (elt_tour_p f))"
    and "visited_part f \<noteq> []"
    and "length (extended f) = nat (count (elt_tour_p f)) + 1"
    and "int (length (extended f)) \<le> n"
    and "elt_city f < n"
    and "elt_city f \<notin> set (visited_part f)"
    and "nat (count (elt_tour_p f)) < length (cities (elt_tour_p f))"
    and "last (extended f) = elt_city f"
    and "hd (extended f) = 0"
    and "count (elt_tour_p f) + 1 = int (length (extended f))"
proof -
  have g: "1 \<le> count (elt_tour_p f)" "count (elt_tour_p f) < n" "nat n \<le> length (cities (elt_tour_p f))"
      "distinct (extended f)" "set (extended f) \<subseteq> {0..<n}" "hd (visited_part f) = 0"
    using assms by (auto simp: good_frame_def)
  show k: "nat (count (elt_tour_p f)) < length (cities (elt_tour_p f))" using g(1,2,3) by linarith
  show len: "length (visited_part f) = nat (count (elt_tour_p f))"
    using k by (simp add: visited_part_def)
  show ne: "visited_part f \<noteq> []" using len g(1) by auto
  show "length (extended f) = nat (count (elt_tour_p f)) + 1" using len by (simp add: extended_def)
  show "int (length (extended f)) \<le> n" using len g(1,2) by (simp add: extended_def)
  show "elt_city f < n" using g(5) by (simp add: extended_def)
  show "elt_city f \<notin> set (visited_part f)" using g(4) by (simp add: extended_def)
  show "last (extended f) = elt_city f" by (simp add: extended_def)
  show "hd (extended f) = 0" using ne g(6) by (simp add: extended_def)
  show "count (elt_tour_p f) + 1 = int (length (extended f))" using len g(1) by (simp add: extended_def)
qed

lemma matrix_entry_in_int:
  assumes "valid_matrix n mat" "0 \<le> a" "a < n" "0 \<le> b" "b < n"
  shows "0 \<le> mat_at mat (n * a + b)" and "mat_at mat (n * a + b) \<le> INT_MAX"
proof -
  have "n * a \<le> n * (n - 1)" using assms(2,3) by (intro mult_left_mono) auto
  then have "n * a + b < n * n" using assms(5) by (simp add: algebra_simps)
  moreover have "0 \<le> n * a + b" using assms(2,3,4) by simp
  ultimately have "nat (n * a + b) < length mat" using assms(1) by (simp add: valid_matrix_def)
  then have m: "mat ! nat (n * a + b) \<in> set mat" by simp
  then show x0: "0 \<le> mat_at mat (n * a + b)"
    using assms(1) by (simp add: valid_matrix_def mat_at_def list_all_iff)
  have "n * mat_at mat (n * a + b) \<le> INT_MAX"
    using m assms(1) by (simp add: valid_matrix_def weights_fit_def mat_at_def list_all_iff)
  moreover have "1 * mat_at mat (n * a + b) \<le> n * mat_at mat (n * a + b)"
    using x0 assms(2,3) by (intro mult_right_mono) simp_all
  ultimately show "mat_at mat (n * a + b) \<le> INT_MAX" by simp
qed

lemma frame_sums:
  assumes gf: "good_frame n mat f" and vm: "valid_matrix n mat" and nbr: "0 \<le> nbr" "nbr < n"
  shows "cost (elt_tour_p f) + elt_cost f = path_cost n mat (extended f)"
    and "in_int (cost (elt_tour_p f) + elt_cost f)"
    and "in_int (path_cost n mat (extended f) + mat_at mat (n * elt_city f + nbr))"
proof -
  note F = good_frame_facts[OF gf]
  have sub: "set (extended f) \<subseteq> {0..<n}" and c1: "1 \<le> elt_city f"
    and ct: "cost (elt_tour_p f) = path_cost n mat (visited_part f)"
    and ec: "elt_cost f = mat_at mat (n * last (visited_part f) + elt_city f)"
    using gf by (simp_all add: good_frame_def)
  show eq: "cost (elt_tour_p f) + elt_cost f = path_cost n mat (extended f)"
    using path_cost_snoc[OF F(2), of n mat "elt_city f"] ct ec by (simp add: extended_def)
  have ne: "extended f \<noteq> []" by (simp add: extended_def)
  have p0: "0 \<le> path_cost n mat (extended f)"
    using path_cost_append_le[OF vm, of "[hd (extended f)]" "tl (extended f)"] ne sub by simp
  have m0: "0 \<le> mat_at mat (n * elt_city f + nbr)"
    using matrix_entry_nonneg[OF vm, of "elt_city f" nbr] c1 F(5) nbr by simp
  define M where "M = Max (insert 0 (set mat))"
  have M0: "0 \<le> M" by (simp add: M_def)
  have Mle: "list_all (\<lambda>x. x \<le> M) mat" by (simp add: M_def list_all_iff)
  have "M \<in> insert 0 (set mat)" unfolding M_def by (rule Max_in) simp_all
  then have nM: "n * M \<le> INT_MAX"
    using vm by (auto simp: valid_matrix_def weights_fit_def list_all_iff INT_MAX_def)
  have "path_cost n mat (extended f) \<le> (int (length (extended f)) - 1) * M"
    using path_cost_le[OF vm Mle M0 sub] ne by simp
  also have "\<dots> \<le> (n - 1) * M" using F(4) M0 by (intro mult_right_mono) simp_all
  finally have pe: "path_cost n mat (extended f) \<le> (n - 1) * M" .
  have "mat_at mat (n * elt_city f + nbr) \<le> M"
    using matrix_entry_le[OF vm Mle, of "elt_city f" nbr] c1 F(5) nbr by simp
  then have "path_cost n mat (extended f) + mat_at mat (n * elt_city f + nbr) \<le> n * M"
    using pe by (simp add: algebra_simps)
  then have le: "path_cost n mat (extended f) + mat_at mat (n * elt_city f + nbr) \<le> INT_MAX"
    using nM by simp
  show "in_int (path_cost n mat (extended f) + mat_at mat (n * elt_city f + nbr))"
    using le p0 m0 by (simp add: in_int_def INT_MIN_def)
  show "in_int (cost (elt_tour_p f) + elt_cost f)"
    using eq le p0 m0 by (simp add: in_int_def INT_MIN_def)
qed

lemma extended_tour_facts:
  assumes "good_frame n mat f" "valid_matrix n mat"
  shows "count (extended_tour f) = int (length (extended f))"
    and "take (length (extended f)) (cities (extended_tour f)) = extended f"
    and "cost (extended_tour f) = path_cost n mat (extended f)"
    and "nat n \<le> length (cities (extended_tour f))"
proof -
  note F = good_frame_facts[OF assms(1)]
  let ?t = "elt_tour_p f"
  let ?k = "nat (count ?t)"
  show "count (extended_tour f) = int (length (extended f))"
    using F(10) by (simp add: extended_tour_def)
  have "take (Suc ?k) ((cities ?t)[?k := elt_city f]) = take ?k (cities ?t) @ [elt_city f]"
    using F(7) by (simp add: take_Suc_conv_app_nth)
  then show "take (length (extended f)) (cities (extended_tour f)) = extended f"
    using F(3) by (simp add: extended_tour_def extended_def visited_part_def)
  have n0: "0 < n" using assms(1) by (simp add: good_frame_def)
  note S = frame_sums[OF assms(1,2), of 0]
  show "cost (extended_tour f) = path_cost n mat (extended f)"
    using int_add_fits[OF S(2)[OF order_refl n0]] S(1)[OF order_refl n0]
    by (simp add: extended_tour_def)
  show "nat n \<le> length (cities (extended_tour f))"
    using assms(1) by (simp add: extended_tour_def good_frame_def)
qed

lemma Feasible_extended:
  assumes "good_frame n mat f" "valid_matrix n mat" "0 \<le> nbr" "nbr < n"
  shows "Feasible n mat (elt_city f) nbr (extended_tour f) local_best
           = (nbr \<notin> set (extended f) \<and> path_cost n mat (extended f @ [nbr]) < cost local_best)"
proof -
  note F = good_frame_facts[OF assms(1)]
  note E = extended_tour_facts[OF assms(1,2)]
  note S = frame_sums[OF assms]
  have c: "count (extended_tour f) \<le> int (length (cities (extended_tour f)))"
    using E(1,4) F(4) by linarith
  have ne: "extended f \<noteq> []" by (simp add: extended_def)
  have "Visited nbr (extended_tour f) = (nbr \<in> set (extended f))"
    using Visited_iff[OF c] E(1,2) by simp
  moreover have "int_add (cost (extended_tour f)) (mat_at mat (n * elt_city f + nbr))
                   = path_cost n mat (extended f @ [nbr])"
    using path_cost_snoc[OF ne, of n mat nbr] E(3) F(8) int_add_fits[OF S(3)] by simp
  ultimately show ?thesis by (simp add: Feasible_def)
qed

lemma new_frame_good:
  assumes "good_frame n mat f" "int (length (extended f)) \<noteq> n" "1 \<le> nbr" "nbr < n"
    "nbr \<notin> set (extended f)" "valid_matrix n mat"
  shows "good_frame n mat (new_frame n mat (elt_city f) (extended_tour f) nbr)"
    and "extended (new_frame n mat (elt_city f) (extended_tour f) nbr) = extended f @ [nbr]"
proof -
  note F = good_frame_facts[OF assms(1)]
  note E = extended_tour_facts[OF assms(1,6)]
  let ?g = "new_frame n mat (elt_city f) (extended_tour f) nbr"
  have lt: "int (length (extended f)) < n" using F(4) assms(2) by simp
  have cs: "cities (elt_tour_p ?g) = take (nat n) (cities (extended_tour f))"
    using map_nth_take[OF E(4)] by (simp add: new_frame_def Dup_tour_def)
  have vp: "visited_part ?g = extended f"
  proof -
    have "visited_part ?g = take (length (extended f)) (take (nat n) (cities (extended_tour f)))"
      using cs E(1) by (simp add: visited_part_def new_frame_def Dup_tour_def)
    also have "\<dots> = take (length (extended f)) (cities (extended_tour f))"
    proof -
      have "length (extended f) \<le> nat n" using lt by linarith
      then show ?thesis by (simp add: min_def)
    qed
    finally show ?thesis using E(2) by simp
  qed
  show ex: "extended ?g = extended f @ [nbr]"
    using vp by (simp add: extended_def new_frame_def)
  have g: "distinct (extended f)" "set (extended f) \<subseteq> {0..<n}"
    using assms(1) by (auto simp: good_frame_def)
  show "good_frame n mat ?g"
    unfolding good_frame_def
  proof (intro conjI)
    show "1 \<le> count (elt_tour_p ?g)" using E(1) by (simp add: new_frame_def Dup_tour_def extended_def)
    show "count (elt_tour_p ?g) < n" using E(1) lt by (simp add: new_frame_def Dup_tour_def)
    show "nat n \<le> length (cities (elt_tour_p ?g))" using cs E(4) by simp
    show "hd (visited_part ?g) = 0" using vp F(9) by simp
    show "distinct (extended ?g)" using ex g(1) assms(5) by simp
    show "set (extended ?g) \<subseteq> {0..<n}" using ex g(2) assms(3,4) by simp
    show "1 \<le> elt_city ?g" using assms(3) by (simp add: new_frame_def)
    show "cost (elt_tour_p ?g) = path_cost n mat (visited_part ?g)"
      using vp E(3) by (simp add: new_frame_def Dup_tour_def)
    show "elt_cost ?g = mat_at mat (n * last (visited_part ?g) + elt_city ?g)"
      using vp F(8) by (simp add: new_frame_def)
  qed
qed

lemma Check_best_tour_extended:
  assumes "good_frame n mat f" "int (length (extended f)) = n" "length (cities best_tour) = nat n + 1"
    "valid_matrix n mat"
  shows "Check_best_tour n mat (elt_city f) (extended_tour f) (best_tour, local_best) =
           (if path_cost n mat (extended f @ [0]) < cost best_tour
            then (\<lparr>cities = extended f @ [0], count = n + 1, cost = path_cost n mat (extended f @ [0])\<rparr>,
                  local_best\<lparr>cost := path_cost n mat (extended f @ [0])\<rparr>)
            else (best_tour, local_best))"
proof -
  note F = good_frame_facts[OF assms(1)]
  note E = extended_tour_facts[OF assms(1,4)]
  have ne: "extended f \<noteq> []" by (simp add: extended_def)
  have n0: "0 \<le> n" using assms(2) by simp
  have n1: "0 < n" using assms(1) by (simp add: good_frame_def)
  note S = frame_sums[OF assms(1,4) order_refl n1]
  have c: "int_add (cost (extended_tour f)) (mat_at mat (elt_city f * n)) = path_cost n mat (extended f @ [0])"
    using path_cost_snoc[OF ne, of n mat 0] E(3) F(8) int_add_fits[OF S(3)] by (simp add: mult.commute)
  have "count (extended_tour f) = n" using E(1) assms(2) by simp
  then have "(copy_cities 0 (extended_tour f) (cities best_tour))[nat n := 0]
          = take (nat n) (cities (extended_tour f)) @ [0]"
    using copy_cities_all[OF n0 _ assms(3) E(4)] by simp
  moreover have "take (nat n) (cities (extended_tour f)) = extended f"
    using E(2) assms(2) by (metis nat_int)
  ultimately show ?thesis using c by (simp add: Check_best_tour_cases)
qed

lemma extended_complete:
  assumes "good_frame n mat f" "int (length (extended f)) = n"
  shows "complete_tour n (extended f @ [0])"
proof -
  note F = good_frame_facts[OF assms(1)]
  have g: "distinct (extended f)" "set (extended f) \<subseteq> {0..<n}"
    using assms(1) by (auto simp: good_frame_def)
  have len: "length (extended f) = nat n" using assms(2) by linarith
  have ne: "extended f \<noteq> []" by (simp add: extended_def)
  have "card (set (extended f)) = nat n" using g(1) len by (simp add: distinct_card)
  then have "card (set (extended f)) = card {0..<n}" by simp
  then have s: "set (extended f) = {0..<n}"
    using g(2) by (intro card_subset_eq) auto
  have "(extended f @ [0]) ! 0 = hd (extended f)" using ne by (simp add: hd_conv_nth nth_append)
  then show ?thesis
    using len s g(1) F(9) by (simp add: complete_tour_def nth_append)
qed

lemma covers_complete:
  assumes "good_frame n mat f" "int (length (extended f)) = n" "covers f T" "complete_tour n T"
  shows "T = extended f @ [0]"
proof -
  have len: "length (extended f) = nat n" using assms(2) by linarith
  have "take (nat n) T = extended f"
    using assms(3) len by (auto simp: covers_def prefix_def)
  then show ?thesis using complete_tour_split[OF assms(4)] by simp
qed

lemma covers_next:
  assumes "good_frame n mat f" "int (length (extended f)) \<noteq> n" "covers f T" "complete_tour n T"
  shows "1 \<le> T ! length (extended f)" and "T ! length (extended f) < n"
    and "T ! length (extended f) \<notin> set (extended f)"
    and "prefix (extended f @ [T ! length (extended f)]) T"
proof -
  note F = good_frame_facts[OF assms(1)]
  let ?m = "length (extended f)"
  have lt: "?m < nat n" using F(4) assms(2) by linarith
  have T: "length T = nat n + 1" "T ! 0 = 0" "distinct (take (nat n) T)" "set (take (nat n) T) = {0..<n}"
    using assms(4) by (auto simp: complete_tour_def)
  have pre: "take ?m T = extended f" using assms(3) by (auto simp: covers_def prefix_def)
  have m1: "1 \<le> ?m" by (simp add: extended_def)
  let ?U = "take (nat n) T"
  have Um: "?U ! ?m = T ! ?m" "?U ! 0 = T ! 0" using lt by simp_all
  have "?U ! ?m \<in> set ?U" using lt T(1) by (intro nth_mem) simp
  then have rng: "0 \<le> T ! ?m \<and> T ! ?m < n" using T(4) Um by auto
  have "?m < length ?U" "0 < length ?U" "?m \<noteq> 0" using lt m1 T(1) by (simp_all add: extended_def)
  then have "?U ! ?m \<noteq> ?U ! 0"
    using T(3) nth_eq_iff_index_eq[of ?U ?m 0] by blast
  then have "T ! ?m \<noteq> 0" using Um T(2) by simp
  then show "1 \<le> T ! ?m" using rng by simp
  show "T ! ?m < n" using rng by simp
  have tU: "take ?m ?U = extended f" using pre lt by (simp add: min_def)
  show "T ! ?m \<notin> set (extended f)"
  proof
    assume "T ! ?m \<in> set (extended f)"
    then have "?U ! ?m \<in> set (take ?m ?U)" using tU Um by simp
    then obtain j where j: "j < ?m" "?U ! j = ?U ! ?m"
      using lt T(1) by (auto simp: in_set_conv_nth)
    moreover have "j < length ?U" "?m < length ?U" "j \<noteq> ?m" using j(1) lt T(1) by simp_all
    ultimately show False using T(3) nth_eq_iff_index_eq[of ?U j ?m] by blast
  qed
  have "take (Suc ?m) T = take ?m T @ [T ! ?m]"
    using lt T(1) by (intro take_Suc_conv_app_nth) simp
  then have "take (Suc ?m) T = extended f @ [T ! ?m]" using pre by simp
  then show "prefix (extended f @ [T ! ?m]) T" by (metis take_is_prefix)
qed

section \<open>The loop body and the split, on frames\<close>
lemma Search_body_effect:
  assumes "wf_stack s" "1 \<le> stk_top s" "\<forall>f \<in> set (frames s). good_frame n mat f"
    "valid_matrix n mat"
  shows "\<exists>fs f s1. frames s = fs @ [f] \<and> wf_stack s1 \<and> frames s1 = fs \<and>
           Search_body n mat (best_tour, local_best, s) =
             Some (if int (length (extended f)) = n
                   then (fst (Check_best_tour n mat (elt_city f) (extended_tour f) (best_tour, local_best)),
                         snd (Check_best_tour n mat (elt_city f) (extended_tour f) (best_tour, local_best)),
                         s1)
                   else (best_tour, local_best,
                         push_nbrs (n - 1) n mat (elt_city f) (extended_tour f) local_best s1))"
proof -
  obtain f s1 where p: "Pop s = Some (elt_tour_p f, elt_city f, elt_cost f, s1)"
      "frames s = frames s1 @ [f]" "wf_stack s1"
    using Pop_frames[OF assms(1,2)] by blast
  have gf: "good_frame n mat f" using assms(3) p(2) by simp
  note F = good_frame_facts[OF gf]
  note E = extended_tour_facts[OF gf assms(4)]
  have c0: "0 \<le> count (elt_tour_p f)" using gf by (simp add: good_frame_def)
  have "Search_body n mat (best_tour, local_best, s) =
          (let t1 = extended_tour f in
           if count t1 = n
           then (case Check_best_tour n mat (elt_city f) t1 (best_tour, local_best) of
                   (b', l') \<Rightarrow> Some (b', l', s1))
           else Some (best_tour, local_best, push_nbrs (n - 1) n mat (elt_city f) t1 local_best s1))"
    unfolding Search_body_def extended_tour_def using p(1) c0 F(7) by simp
  also have "\<dots> = Some (if int (length (extended f)) = n
                   then (fst (Check_best_tour n mat (elt_city f) (extended_tour f) (best_tour, local_best)),
                         snd (Check_best_tour n mat (elt_city f) (extended_tour f) (best_tour, local_best)),
                         s1)
                   else (best_tour, local_best,
                         push_nbrs (n - 1) n mat (elt_city f) (extended_tour f) local_best s1))"
    using E(1) by (simp add: Let_def split: prod.splits)
  finally have "Search_body n mat (best_tour, local_best, s) =
             Some (if int (length (extended f)) = n
                   then (fst (Check_best_tour n mat (elt_city f) (extended_tour f) (best_tour, local_best)),
                         snd (Check_best_tour n mat (elt_city f) (extended_tour f) (best_tour, local_best)),
                         s1)
                   else (best_tour, local_best,
                         push_nbrs (n - 1) n mat (elt_city f) (extended_tour f) local_best s1))" .
  then show ?thesis using p(2,3) by blast
qed

lemma Split_stack_takes:
  assumes "1 \<le> stk_top s" "stk_top s \<le> int (length (stk s))" "Split_stack s g = (s', g')"
  shows "take (nat (stk_top s')) (stk s') = map (\<lambda>j. stk s ! (2 * j)) [0..<(nat (stk_top s) + 1) div 2]"
    and "take (nat (new_stack_top g')) (stk (mailbox_stack g'))
           = map (\<lambda>j. stk s ! (2 * j + 1)) [0..<nat (stk_top s) div 2]"
    and "new_stack g' \<noteq> None"
proof -
  note S = Split_stack_slots[OF assms]
  obtain donated where d: "new_stack g' = Some donated" "length donated = nat (stk_top s)"
      "\<forall>j < nat (stk_top s div 2). donated ! j = stk s ! (2 * j + 1)"
    using S(1) by blast
  define K where "K = nat (stk_top s)"
  have K: "stk_top s = int K" "K \<le> length (stk s)" using assms(1,2) by (auto simp: K_def)
  have h: "nat (int K div 2) = K div 2" "nat ((int K + 1) div 2) = (K + 1) div 2"
    by linarith+
  show "take (nat (new_stack_top g')) (stk (mailbox_stack g'))
           = map (\<lambda>j. stk s ! (2 * j + 1)) [0..<nat (stk_top s) div 2]"
    using d S(3) K(1) h by (intro nth_equalityI) (auto simp: mailbox_stack_def)
  show "take (nat (stk_top s')) (stk s') = map (\<lambda>j. stk s ! (2 * j)) [0..<(nat (stk_top s) + 1) div 2]"
    using S(2,5,7) K h by (intro nth_equalityI) auto
  show "new_stack g' \<noteq> None" using d(1) by simp
qed

lemma Split_stack_frames:
  assumes "wf_stack s" "2 \<le> stk_top s" "Split_stack s g = (s', g')"
  shows "wf_stack s'" and "1 \<le> stk_top s'"
    and "new_stack g' \<noteq> None" and "wf_stack (mailbox_stack g')" and "1 \<le> new_stack_top g'"
    and "set (frames s') \<union> set (mailbox g') = set (frames s)"
    and "threads_in_cond_wait g' = threads_in_cond_wait g"
proof -
  define K where "K = nat (stk_top s)"
  have wf: "stk_top s = int K" "2 \<le> K" "int K \<le> stk_size s" "int (length (stk s)) = stk_size s"
      "list_all (\<lambda>x. x \<noteq> None) (take K (stk s))"
    using assms(1,2) by (auto simp: wf_stack_def K_def)
  have tp: "1 \<le> stk_top s" "stk_top s \<le> int (length (stk s))" using wf by simp_all
  note S = Split_stack_slots[OF tp assms(3)]
  note T = Split_stack_takes[OF tp assms(3)]
  have some: "stk s ! i \<noteq> None" if "i < K" for i
  proof -
    have "take K (stk s) ! i \<in> set (take K (stk s))" using that wf(3,4) by (intro nth_mem) simp
    then show ?thesis using wf(5) that by (auto simp: list_all_iff)
  qed
  have h: "nat (int K div 2) = K div 2" "nat ((int K + 1) div 2) = (K + 1) div 2"
    by linarith+
  obtain donated where d: "new_stack g' = Some donated" "length donated = K"
    using S(1) wf(1) by auto
  have keep_some: "list_all (\<lambda>x. x \<noteq> None) (take (nat (stk_top s')) (stk s'))"
  proof -
    have "2 * j < K" if "j < (K + 1) div 2" for j using that by linarith
    then show ?thesis unfolding T(1) using some wf(1) by (simp add: list_all_iff)
  qed
  have don_some: "list_all (\<lambda>x. x \<noteq> None) (take (nat (new_stack_top g')) (stk (mailbox_stack g')))"
  proof -
    have "2 * j + 1 < K" if "j < K div 2" for j using that by linarith
    then show ?thesis unfolding T(2) using some wf(1) by (simp add: list_all_iff)
  qed
  show "wf_stack s'"
    using S(2,5,6) wf keep_some by (simp add: wf_stack_def)
  show "1 \<le> stk_top s'" using S(2) wf(1,2) by simp
  show "new_stack g' \<noteq> None" by (rule T(3))
  show "wf_stack (mailbox_stack g')"
    using S(3,4) d wf don_some by (simp add: wf_stack_def mailbox_stack_def)
  show "1 \<le> new_stack_top g'" using S(3) wf(1,2) by simp
  show "threads_in_cond_wait g' = threads_in_cond_wait g" by (rule S(8))
  have "mset (take (nat (stk_top s')) (stk s')) + mset (take (nat (new_stack_top g')) (stk (mailbox_stack g')))
          = mset (take K (stk s))"
    unfolding T(1,2) using mset_even_odd[of K "stk s"] wf(1,3,4) by simp
  then have "mset (map the (take (nat (stk_top s')) (stk s')))
               + mset (map the (take (nat (new_stack_top g')) (stk (mailbox_stack g'))))
             = mset (map the (take K (stk s)))"
    by (metis image_mset_union mset_map)
  then have "set_mset (mset (frames s') + mset (frames (mailbox_stack g'))) = set_mset (mset (frames s))"
    using wf(1) by (simp add: frames_def mailbox_stack_def)
  then show "set (frames s') \<union> set (mailbox g') = set (frames s)"
    using d(1) by (simp add: mailbox_def)
qed

section \<open>The blocks of Fill_stack\<close>
lemma fill_from_frames:
  assumes "0 \<le> stk_top s" "stk_top s + (last_final_city + 1 - i) \<le> int (length (stk s))"
  shows "frames (fill_from i last_final_city n mat garbage s)
           = frames s @ map (first_frame n mat garbage) [i..last_final_city]
         \<and> length (stk (fill_from i last_final_city n mat garbage s)) = length (stk s)
         \<and> stk_size (fill_from i last_final_city n mat garbage s) = stk_size s
         \<and> stk_top (fill_from i last_final_city n mat garbage s)
             = stk_top s + (if i \<le> last_final_city then last_final_city + 1 - i else 0)
         \<and> (list_all (\<lambda>x. x \<noteq> None) (take (nat (stk_top s)) (stk s)) \<longrightarrow>
            list_all (\<lambda>x. x \<noteq> None)
              (take (nat (stk_top (fill_from i last_final_city n mat garbage s)))
                    (stk (fill_from i last_final_city n mat garbage s))))"
  using assms
proof (induction i last_final_city n mat garbage s rule: fill_from.induct)
  case (1 i last_final_city n mat garbage s)
  show ?case
  proof (cases "i \<le> last_final_city")
    case False
    then have "fill_from i last_final_city n mat garbage s = s" by (subst fill_from.simps) simp
    then show ?thesis using False by simp
  next
    case True
    define K where "K = nat (stk_top s)"
    have K: "stk_top s = int K" "K < length (stk s)" using "1.prems" True by (auto simp: K_def)
    let ?f = "\<lparr>elt_tour_p = first_tour n, elt_city = i, elt_cost = int_add (garbage i) (mat_at mat i)\<rparr>"
    have ff: "?f = first_frame n mat garbage i" by (simp add: first_frame_def)
    let ?s1 = "s\<lparr>stk := (stk s)[nat (stk_top s) := Some ?f], stk_top := stk_top s + 1\<rparr>"
    have st: "fill_from i last_final_city n mat garbage s = fill_from (i + 1) last_final_city n mat garbage ?s1"
      using True by (subst fill_from.simps) simp
    have tk: "take (Suc K) ((stk s)[K := Some ?f]) = take K (stk s) @ [Some ?f]"
      using K(2) by (simp add: take_Suc_conv_app_nth)
    have nS: "nat (int K + 1) = Suc K" by simp
    have f1: "frames ?s1 = frames s @ [?f]"
      using tk K(1) nS by (simp add: frames_def)
    have IH: "frames (fill_from (i + 1) last_final_city n mat garbage ?s1)
           = frames ?s1 @ map (first_frame n mat garbage) [i + 1..last_final_city]
         \<and> length (stk (fill_from (i + 1) last_final_city n mat garbage ?s1)) = length (stk ?s1)
         \<and> stk_size (fill_from (i + 1) last_final_city n mat garbage ?s1) = stk_size ?s1
         \<and> stk_top (fill_from (i + 1) last_final_city n mat garbage ?s1)
             = stk_top ?s1 + (if i + 1 \<le> last_final_city then last_final_city + 1 - (i + 1) else 0)
         \<and> (list_all (\<lambda>x. x \<noteq> None) (take (nat (stk_top ?s1)) (stk ?s1)) \<longrightarrow>
            list_all (\<lambda>x. x \<noteq> None)
              (take (nat (stk_top (fill_from (i + 1) last_final_city n mat garbage ?s1)))
                    (stk (fill_from (i + 1) last_final_city n mat garbage ?s1))))"
      using "1.prems" True by (intro "1.IH") auto
    have up: "[i..last_final_city] = i # [i + 1..last_final_city]"
      using True by (simp add: upto_rec1)
    have some: "list_all (\<lambda>x. x \<noteq> None) (take (nat (stk_top s)) (stk s)) \<Longrightarrow>
                list_all (\<lambda>x. x \<noteq> None) (take (nat (stk_top ?s1)) (stk ?s1))"
      using tk K(1) nS by simp
    show ?thesis
      unfolding st using IH f1 up some True ff by auto
  qed
qed

lemma c_div_nonneg: "0 \<le> a \<Longrightarrow> 0 < b \<Longrightarrow> c_div a b = a div b"
  by (cases "a = 0") (simp_all add: c_div_def)

lemma c_mod_nonneg: "0 \<le> a \<Longrightarrow> 0 < b \<Longrightarrow> c_mod a b = a mod b"
  by (simp add: c_mod_def c_div_nonneg minus_mult_div_eq_mod)

lemma Fill_stack_block:
  assumes "2 \<le> n" "1 \<le> thread_count"
  shows "Fill_stack n thread_count mat garbage r s =
           fill_from (block_first n thread_count r)
             (block_first n thread_count r + block_count n thread_count r - 1) n mat garbage s"
  using assms
  by (simp add: Fill_stack_def Let_def c_div_nonneg c_mod_nonneg block_first_def block_count_def)

lemma block_chain:
  assumes "2 \<le> n" "1 \<le> thread_count" "thread_count < n"
  shows "block_first n thread_count 0 = 1"
    and "0 \<le> r \<Longrightarrow> block_first n thread_count r + block_count n thread_count r
                     = block_first n thread_count (r + 1)"
    and "block_first n thread_count thread_count = n"
    and "0 \<le> block_count n thread_count r"
    and "block_count n thread_count r \<le> n"
proof -
  define q where "q = (n - 1) div thread_count"
  define m where "m = (n - 1) mod thread_count"
  have qm: "thread_count * q + m = n - 1" "0 \<le> m" "m < thread_count" "0 \<le> q"
    using assms by (simp_all add: q_def m_def pos_imp_zdiv_nonneg_iff)
  show "block_first n thread_count 0 = 1"
    using qm by (simp add: block_first_def q_def[symmetric] m_def[symmetric])
  show "block_first n thread_count r + block_count n thread_count r
                     = block_first n thread_count (r + 1)" if "0 \<le> r"
  proof (cases "r + 1 < m")
    case True
    then show ?thesis
      by (simp add: block_first_def block_count_def q_def[symmetric] m_def[symmetric] algebra_simps)
  next
    case False
    show ?thesis
    proof (cases "r < m")
      case True
      then have "r + 1 = m" using False by simp
      then have "m = r + 1" by simp
      then show ?thesis
        using True by (simp add: block_first_def block_count_def q_def[symmetric] m_def[symmetric] algebra_simps)
    next
      case False
      then show ?thesis
        by (simp add: block_first_def block_count_def q_def[symmetric] m_def[symmetric] algebra_simps)
    qed
  qed
  show "block_first n thread_count thread_count = n"
    using qm by (simp add: block_first_def q_def[symmetric] m_def[symmetric] algebra_simps)
  show "0 \<le> block_count n thread_count r"
    using qm by (simp add: block_count_def q_def[symmetric] m_def[symmetric])
  have "q \<le> thread_count * q" using qm(4) assms(2) by (simp add: mult_le_cancel_right1)
  then have "q \<le> n - 1" using qm by linarith
  then show "block_count n thread_count r \<le> n"
    by (simp add: block_count_def q_def[symmetric] m_def[symmetric])
qed

lemma block_first_mono:
  assumes "2 \<le> n" "1 \<le> thread_count" "thread_count < n" "0 \<le> r"
  shows "block_first n thread_count r \<le> block_first n thread_count (r + int k)"
proof (induction k)
  case 0
  then show ?case by simp
next
  case (Suc k)
  have "block_first n thread_count (r + int k) \<le> block_first n thread_count (r + int k + 1)"
    using block_chain(2)[OF assms(1,2,3), of "r + int k"] block_chain(4)[OF assms(1,2,3), of "r + int k"]
      assms(4) by linarith
  moreover have "r + int (Suc k) = r + int k + 1" by simp
  ultimately show ?case using Suc by (simp only:)
qed

lemma block_bounds:
  assumes "2 \<le> n" "1 \<le> thread_count" "thread_count < n" "0 \<le> r" "r < thread_count"
  shows "1 \<le> block_first n thread_count r"
    and "block_first n thread_count r + block_count n thread_count r \<le> n"
proof -
  have "block_first n thread_count 0 \<le> block_first n thread_count (0 + int (nat r))"
    by (rule block_first_mono[OF assms(1,2,3)]) simp
  then show "1 \<le> block_first n thread_count r"
    using block_chain(1)[OF assms(1,2,3)] assms(4) by simp
  have "block_first n thread_count (r + 1) \<le> block_first n thread_count (r + 1 + int (nat (thread_count - (r + 1))))"
    by (rule block_first_mono[OF assms(1,2,3)]) (use assms(4) in simp)
  then have "block_first n thread_count (r + 1) \<le> n"
    using block_chain(3)[OF assms(1,2,3)] assms(5) by simp
  then show "block_first n thread_count r + block_count n thread_count r \<le> n"
    using block_chain(2)[OF assms(1,2,3,4)] by simp
qed

lemma block_cover:
  assumes "2 \<le> n" "1 \<le> thread_count" "thread_count < n"
  shows "1 \<le> i \<Longrightarrow> i < block_first n thread_count (int k) \<Longrightarrow>
         \<exists>r < k. block_first n thread_count (int r) \<le> i \<and>
                 i < block_first n thread_count (int r) + block_count n thread_count (int r)"
proof (induction k)
  case 0
  then show ?case using block_chain(1)[OF assms] by simp
next
  case (Suc k)
  show ?case
  proof (cases "i < block_first n thread_count (int k)")
    case True
    then obtain r where "r < k" "block_first n thread_count (int r) \<le> i"
        "i < block_first n thread_count (int r) + block_count n thread_count (int r)"
      using Suc by blast
    then show ?thesis using less_Suc_eq by blast
  next
    case False
    moreover have "block_first n thread_count (int k) + block_count n thread_count (int k)
                     = block_first n thread_count (int (Suc k))"
      using block_chain(2)[OF assms, of "int k"] by (simp add: add.commute)
    ultimately have "block_first n thread_count (int k) \<le> i \<and>
        i < block_first n thread_count (int k) + block_count n thread_count (int k)"
      using Suc.prems by simp
    then show ?thesis by blast
  qed
qed

lemma initial_stack_frames:
  assumes "2 \<le> n" "1 \<le> thread_count" "thread_count < n" "0 \<le> r" "r < thread_count"
  shows "frames (initial_stack n thread_count mat garbage r)
           = map (first_frame n mat garbage)
               [block_first n thread_count r ..
                block_first n thread_count r + block_count n thread_count r - 1]"
    and "wf_stack (initial_stack n thread_count mat garbage r)"
proof -
  let ?s0 = "\<lparr>stk = malloc_slots (n * 2), stk_top = 0, stk_size = n * 2\<rparr>"
  let ?F = "block_first n thread_count r"
  let ?L = "block_first n thread_count r + block_count n thread_count r - 1"
  have i: "initial_stack n thread_count mat garbage r = fill_from ?F ?L n mat garbage ?s0"
    using Fill_stack_block[OF assms(1,2)] by (simp add: initial_stack_def)
  have c: "0 \<le> block_count n thread_count r" "block_count n thread_count r \<le> n"
    using block_chain(4,5)[OF assms(1,2,3)] by simp_all
  have pre: "0 \<le> stk_top ?s0" "stk_top ?s0 + (?L + 1 - ?F) \<le> int (length (stk ?s0))"
    using c assms(1) by (simp_all add: malloc_slots_def)
  define res where "res = fill_from ?F ?L n mat garbage ?s0"
  have Fl: "frames res = frames ?s0 @ map (first_frame n mat garbage) [?F..?L]"
      "length (stk res) = length (stk ?s0)" "stk_size res = stk_size ?s0"
      "stk_top res = stk_top ?s0 + (if ?F \<le> ?L then ?L + 1 - ?F else 0)"
      "list_all (\<lambda>x. x \<noteq> None) (take (nat (stk_top ?s0)) (stk ?s0)) \<longrightarrow>
         list_all (\<lambda>x. x \<noteq> None) (take (nat (stk_top res)) (stk res))"
    using fill_from_frames[OF pre, of n mat garbage] unfolding res_def by blast+
  have f0: "frames ?s0 = []" by (simp add: frames_def)
  show "frames (initial_stack n thread_count mat garbage r) = map (first_frame n mat garbage) [?F..?L]"
    using Fl(1) f0 unfolding i res_def by simp
  have top: "stk_top res = block_count n thread_count r"
    using Fl(4) c(1) by auto
  have "wf_stack res"
    unfolding wf_stack_def
  proof (intro conjI)
    show "0 \<le> stk_top res" using top c by simp
    show "stk_top res \<le> stk_size res" using top c Fl(3) assms(1) by simp
    show "int (length (stk res)) = stk_size res" using Fl(2,3) assms(1) by (simp add: malloc_slots_def)
    show "1 \<le> stk_size res" using Fl(3) assms(1) by simp
    show "list_all (\<lambda>x. x \<noteq> None) (take (nat (stk_top res)) (stk res))" using Fl(5) by simp
  qed
  then show "wf_stack (initial_stack n thread_count mat garbage r)"
    unfolding i res_def .
qed

lemma first_frame_good:
  assumes "2 \<le> n" "1 \<le> i" "i < n" "garbage i = 0" "valid_matrix n mat"
  shows "good_frame n mat (first_frame n mat garbage i)"
    and "extended (first_frame n mat garbage i) = [0, i]"
proof -
  have len: "length (replicate (nat (n + 1)) NO_CITY) = nat n + 1" using assms(1) by simp
  have vp: "visited_part (first_frame n mat garbage i) = [0]"
  proof -
    have "take (Suc 0) ((replicate (nat (n + 1)) NO_CITY)[0 := 0]) = [0]"
      using assms(1) by (cases "nat (n + 1)") auto
    then show ?thesis
      by (simp add: visited_part_def first_frame_def first_tour_def Initialize_tour_def)
  qed
  show ex: "extended (first_frame n mat garbage i) = [0, i]"
    using vp by (simp add: extended_def first_frame_def)
  have "0 \<le> mat_at mat (n * 0 + i)" "mat_at mat (n * 0 + i) \<le> INT_MAX"
    using matrix_entry_in_int[OF assms(5), of 0 i] assms(1,2,3) by simp_all
  then have "in_int (mat_at mat i)" by (simp add: in_int_def INT_MIN_def)
  then have "int_add 0 (mat_at mat i) = mat_at mat i" by (rule int_add_0)
  then show "good_frame n mat (first_frame n mat garbage i)"
    unfolding good_frame_def vp ex
    using assms(1-4) by (simp add: first_frame_def first_tour_def Initialize_tour_def)
qed

section \<open>The first frames\<close>
lemma frames_top_0: "stk_top s = 0 \<Longrightarrow> frames s = []"
  by (simp add: frames_def)

lemma frames_no_slots: "stk s = [] \<Longrightarrow> frames s = []"
  by (simp add: frames_def)

lemma mailbox_empty: "new_stack g = None \<Longrightarrow> mailbox g = []"
  by (simp add: mailbox_def)

lemma mailbox_frames: "new_stack g \<noteq> None \<Longrightarrow> mailbox g = frames (mailbox_stack g)"
  by (auto simp: mailbox_def)

lemma wake_up_same:
  "worker_ok (wake_up wk) = worker_ok wk" "idle (wake_up wk) = idle wk"
  "pending n thread_count mat r (wake_up wk) = pending n thread_count mat r wk"
  "w_local_best (wake_up wk) = w_local_best wk"
  "(w_pc (wake_up wk) = Done) = (w_pc wk = Done)"
  by (auto simp: wake_up_def worker_ok_def idle_def pending_def)

lemma initial_frames_good:
  assumes "valid_input n thread_count mat" "r < nat thread_count"
    and "f \<in> set (frames (initial_stack n thread_count mat garbage_0 (int r)))"
  shows "good_frame n mat f"
proof -
  have v: "2 \<le> n" "1 \<le> thread_count" "thread_count < n" using assms(1) by (auto simp: valid_input_def)
  have r: "0 \<le> int r" "int r < thread_count" using assms(2) by simp_all
  obtain i where i: "f = first_frame n mat garbage_0 i" "block_first n thread_count (int r) \<le> i"
      "i \<le> block_first n thread_count (int r) + block_count n thread_count (int r) - 1"
    using assms(3) initial_stack_frames(1)[OF v r, of mat garbage_0] by auto
  have vm: "valid_matrix n mat" using assms(1) by (simp add: valid_input_def)
  have "1 \<le> i" "i < n" using i(2,3) block_bounds[OF v r] by simp_all
  then show ?thesis
    using first_frame_good(1)[OF v(1) _ _ _ vm, of i garbage_0] i(1) by (simp add: garbage_0_def)
qed

lemma initial_frames_cover:
  assumes "valid_input n thread_count mat" "complete_tour n T"
  shows "\<exists>r < nat thread_count. \<exists>f \<in> set (frames (initial_stack n thread_count mat garbage_0 (int r))).
            covers f T"
proof -
  have v: "2 \<le> n" "1 \<le> thread_count" "thread_count < n" using assms(1) by (auto simp: valid_input_def)
  have T: "length T = nat n + 1" "T ! 0 = 0" "distinct (take (nat n) T)" "set (take (nat n) T) = {0..<n}"
    using assms(2) by (auto simp: complete_tour_def)
  let ?U = "take (nat n) T"
  have lU: "length ?U = nat n" using T(1) by simp
  have "?U ! 1 \<in> set ?U" using lU v(1) by (intro nth_mem) simp
  then have rng: "0 \<le> T ! 1 \<and> T ! 1 < n" using T(4) v(1) by auto
  have "(1::nat) < length ?U" "(0::nat) < length ?U" using lU v(1) by simp_all
  then have "?U ! 1 \<noteq> ?U ! 0" using T(3) nth_eq_iff_index_eq[of ?U 1 0] by simp
  then have "T ! 1 \<noteq> 0" using T(2) v(1) by simp
  then have i: "1 \<le> T ! 1" "T ! 1 < n" using rng by simp_all
  have "T ! 1 < block_first n thread_count (int (nat thread_count))"
    using block_chain(3)[OF v] i(2) v(2) by simp
  then obtain r where r: "r < nat thread_count" "block_first n thread_count (int r) \<le> T ! 1"
      "T ! 1 < block_first n thread_count (int r) + block_count n thread_count (int r)"
    using block_cover[OF v i(1)] by blast
  have r': "0 \<le> int r" "int r < thread_count" using r(1) by simp_all
  let ?f = "first_frame n mat garbage_0 (T ! 1)"
  have "?f \<in> set (frames (initial_stack n thread_count mat garbage_0 (int r)))"
    using initial_stack_frames(1)[OF v r', of mat garbage_0] r(2,3) by simp
  moreover have "covers ?f T"
  proof -
    have "extended ?f = [0, T ! 1]"
      using first_frame_good(2)[OF v(1) i, of garbage_0 mat] assms(1)
      by (simp add: garbage_0_def valid_input_def)
    moreover have "take 2 T = [T ! 0, T ! 1]"
      using T(1) v(1) by (simp add: take_Suc_conv_app_nth numeral_2_eq_2)
    ultimately have "take 2 T = extended ?f" using T(2) by simp
    then show ?thesis unfolding covers_def by (metis take_is_prefix)
  qed
  ultimately show ?thesis using r(1) by blast
qed

section \<open>A step of a worker\<close>
lemma step_summaryI:
  assumes "worker_ok wk'" "mailbox_ok g'" "best_ok n mat b'" "cost b' \<le> cost b"
    "cost b' \<le> cost (w_local_best wk')"
    "threads_in_cond_wait g' + (if idle wk then 1 else 0)
          = threads_in_cond_wait g + (if idle wk' then 1 else 0)"
    "set (pending n thread_count mat r wk') \<union> set (mailbox g')
       \<subseteq> set (pending n thread_count mat r wk) \<union> set (mailbox g) \<union> N"
    "\<forall>f \<in> N. good_frame n mat f"
    "\<forall>f \<in> set (pending n thread_count mat r wk) \<union> set (mailbox g). good_frame n mat f"
    "\<And>T f. complete_tour n T \<Longrightarrow> path_cost n mat T < cost b' \<Longrightarrow>
       f \<in> set (pending n thread_count mat r wk) \<union> set (mailbox g) \<Longrightarrow> covers f T \<Longrightarrow>
       \<exists>f' \<in> set (pending n thread_count mat r wk') \<union> set (mailbox g'). covers f' T"
    "w_pc wk' = Done \<Longrightarrow> thread_count \<le> threads_in_cond_wait g' \<and> new_stack g' = None"
    "thread_count \<le> threads_in_cond_wait g \<Longrightarrow> new_stack g = None \<Longrightarrow> idle wk \<Longrightarrow> g' = g"
    "w_pc wk' \<noteq> At_start"
  shows "step_summary n thread_count mat r (b, g, wk) (b', g', wk')"
  unfolding step_summary_def prod.case
proof (intro conjI)
  show "\<forall>f \<in> set (pending n thread_count mat r wk') \<union> set (mailbox g'). good_frame n mat f"
    using assms(7,8,9) by blast
  show "\<forall>T. complete_tour n T \<and> path_cost n mat T < cost b' \<and>
              (\<exists>f \<in> set (pending n thread_count mat r wk) \<union> set (mailbox g). covers f T) \<longrightarrow>
              (\<exists>f \<in> set (pending n thread_count mat r wk') \<union> set (mailbox g'). covers f T)"
    using assms(10) by blast
qed (use assms in blast)+

lemma summary_starts:
  assumes "valid_input n thread_count mat" "r < nat thread_count" "w_pc wk = At_start"
    and "mailbox_ok g" "best_ok n mat b"
    and "\<forall>f \<in> set (pending n thread_count mat r wk) \<union> set (mailbox g). good_frame n mat f"
  shows "step_summary n thread_count mat r (b, g, wk)
           (b, g, \<lparr>w_pc = At_loop, w_stack = initial_stack n thread_count mat garbage_0 (int r),
                   w_local_best = initial_local_best\<rparr>)"
proof (rule step_summaryI[where N = "{}"])
  let ?wk' = "\<lparr>w_pc = At_loop, w_stack = initial_stack n thread_count mat garbage_0 (int r),
                   w_local_best = initial_local_best\<rparr>"
  have v: "2 \<le> n" "1 \<le> thread_count" "thread_count < n" using assms(1) by (auto simp: valid_input_def)
  have r: "0 \<le> int r" "int r < thread_count" using assms(2) by simp_all
  have p: "pending n thread_count mat r ?wk' = pending n thread_count mat r wk"
    using assms(3) by (simp add: pending_def)
  show "worker_ok ?wk'"
    using initial_stack_frames(2)[OF v r] by (simp add: worker_ok_def)
  show "mailbox_ok g" by (rule assms(4))
  show "best_ok n mat b" by (rule assms(5))
  show "cost b \<le> cost b" by simp
  show "cost b \<le> cost (w_local_best ?wk')"
    using assms(5) by (simp add: best_ok_def initial_local_best_def)
  show "threads_in_cond_wait g + (if idle wk then 1 else 0)
          = threads_in_cond_wait g + (if idle ?wk' then 1 else 0)"
    using assms(3) by (simp add: idle_def)
  show "set (pending n thread_count mat r ?wk') \<union> set (mailbox g)
       \<subseteq> set (pending n thread_count mat r wk) \<union> set (mailbox g) \<union> {}"
    using p by simp
  show "\<forall>f \<in> {}. good_frame n mat f" by simp
  show "\<forall>f \<in> set (pending n thread_count mat r wk) \<union> set (mailbox g). good_frame n mat f"
    by (rule assms(6))
  show "\<exists>f' \<in> set (pending n thread_count mat r ?wk') \<union> set (mailbox g). covers f' T"
    if "f \<in> set (pending n thread_count mat r wk) \<union> set (mailbox g)" "covers f T" for T f
    using that p by auto
  show "w_pc ?wk' = Done \<Longrightarrow> thread_count \<le> threads_in_cond_wait g \<and> new_stack g = None" by simp
  show "idle wk \<Longrightarrow> g = g" using assms(3) by (simp add: idle_def)
  show "w_pc ?wk' \<noteq> At_start" by simp
qed

lemma Terminated_entry_cases:
  assumes "wf_stack s"
  shows "(\<exists>s' g'. Terminated_entry thread_count view g s = Returned 0 Signal g' s' \<and>
            2 \<le> stk_top s \<and> new_stack g = None \<and> Split_stack s g = (s', g'))
       \<or> (Terminated_entry thread_count view g s = Returned 0 No_wake g s \<and> 1 \<le> stk_top s)
       \<or> (Terminated_entry thread_count view g s
             = Returned 1 Broadcast (g\<lparr>threads_in_cond_wait := threads_in_cond_wait g + 1\<rparr>) s \<and>
           stk_top s = 0 \<and> threads_in_cond_wait g = thread_count - 1 \<and> new_stack g = None)
       \<or> (Terminated_entry thread_count view g s
             = Blocked (g\<lparr>threads_in_cond_wait := threads_in_cond_wait g + 1\<rparr>) \<and> stk_top s = 0)"
proof -
  have t0: "0 \<le> stk_top s" using assms by (simp add: wf_stack_def)
  obtain s' g' where sp: "Split_stack s g = (s', g')" by (metis surj_pair)
  show ?thesis
    using t0 sp by (auto simp: Terminated_entry_def Empty_def)
qed

lemma mailbox_stack_simps:
  "mailbox_stack (g\<lparr>threads_in_cond_wait := x\<rparr>) = mailbox_stack g"
  "stk_top (mailbox_stack g) = new_stack_top g"
  by (simp_all add: mailbox_stack_def)

lemma mailbox_waiting_update: "mailbox (g\<lparr>threads_in_cond_wait := x\<rparr>) = mailbox g"
  by (simp add: mailbox_def mailbox_stack_simps split: option.splits)

lemma summary_returns:
  assumes "w_pc wk = At_loop" "worker_ok wk" "mailbox_ok g" "best_ok n mat b"
    and "cost b \<le> cost (w_local_best wk)"
    and "\<forall>f \<in> set (pending n thread_count mat r wk) \<union> set (mailbox g). good_frame n mat f"
    and "Terminated_entry thread_count view g (w_stack wk) = Returned ret wake_call g' s'"
  shows "step_summary n thread_count mat r (b, g, wk)
           (b, g', wk\<lparr>w_pc := (if ret = 0 then In_body else Done), w_stack := s'\<rparr>)"
proof -
  let ?s = "w_stack wk"
  let ?wk' = "wk\<lparr>w_pc := (if ret = 0 then In_body else Done), w_stack := s'\<rparr>"
  have wf: "wf_stack ?s" using assms(1,2) by (simp add: worker_ok_def)
  have pw: "pending n thread_count mat r wk = frames ?s" using assms(1) by (simp add: pending_def)
  have nid: "\<not> idle wk" using assms(1) by (simp add: idle_def)
  consider
    (split) "ret = 0" "2 \<le> stk_top ?s" "new_stack g = None" "Split_stack ?s g = (s', g')"
  | (work) "ret = 0" "g' = g" "s' = ?s" "1 \<le> stk_top ?s"
  | (last) "ret = 1" "g' = g\<lparr>threads_in_cond_wait := threads_in_cond_wait g + 1\<rparr>" "s' = ?s"
      "stk_top ?s = 0" "threads_in_cond_wait g = thread_count - 1" "new_stack g = None"
    using Terminated_entry_cases[OF wf, of thread_count view g] assms(7) by auto
  then show ?thesis
  proof cases
    case split
    note S = Split_stack_frames[OF wf split(2,4)]
    have pw': "pending n thread_count mat r ?wk' = frames s'" using split(1) by (simp add: pending_def)
    show ?thesis
    proof (rule step_summaryI[where N = "{}"])
      show "worker_ok ?wk'" using S(1,2) split(1) by (simp add: worker_ok_def)
      show "mailbox_ok g'" using S(4,5) by (simp add: mailbox_ok_def)
      show "best_ok n mat b" by (rule assms(4))
      show "cost b \<le> cost b" by simp
      show "cost b \<le> cost (w_local_best ?wk')" using assms(5) by simp
      show "threads_in_cond_wait g' + (if idle wk then 1 else 0)
              = threads_in_cond_wait g + (if idle ?wk' then 1 else 0)"
        using S(7) nid split(1) by (simp add: idle_def)
      show "set (pending n thread_count mat r ?wk') \<union> set (mailbox g')
              \<subseteq> set (pending n thread_count mat r wk) \<union> set (mailbox g) \<union> {}"
        using S(6) pw pw' by auto
      show "\<forall>f \<in> {}. good_frame n mat f" by simp
      show "\<forall>f \<in> set (pending n thread_count mat r wk) \<union> set (mailbox g). good_frame n mat f"
        by (rule assms(6))
      show "\<exists>f' \<in> set (pending n thread_count mat r ?wk') \<union> set (mailbox g'). covers f' T"
        if "f \<in> set (pending n thread_count mat r wk) \<union> set (mailbox g)" "covers f T" for T f
      proof -
        have "f \<in> set (frames ?s)" using that(1) pw mailbox_empty[OF split(3)] by simp
        then have "f \<in> set (frames s') \<union> set (mailbox g')" using S(6) by simp
        then show ?thesis using that(2) pw' by auto
      qed
      show "w_pc ?wk' = Done \<Longrightarrow> thread_count \<le> threads_in_cond_wait g' \<and> new_stack g' = None"
        using split(1) by simp
      show "idle wk \<Longrightarrow> g' = g" using nid by simp
      show "w_pc ?wk' \<noteq> At_start" by simp
    qed
  next
    case work
    have pw': "pending n thread_count mat r ?wk' = frames ?s" using work(1,3) by (simp add: pending_def)
    show ?thesis
      unfolding work(2)
    proof (rule step_summaryI[where N = "{}"])
      show "worker_ok ?wk'" using wf work(1,3,4) by (simp add: worker_ok_def)
      show "mailbox_ok g" by (rule assms(3))
      show "best_ok n mat b" by (rule assms(4))
      show "cost b \<le> cost b" by simp
      show "cost b \<le> cost (w_local_best ?wk')" using assms(5) by simp
      show "threads_in_cond_wait g + (if idle wk then 1 else 0)
              = threads_in_cond_wait g + (if idle ?wk' then 1 else 0)"
        using nid work(1) by (simp add: idle_def)
      show "set (pending n thread_count mat r ?wk') \<union> set (mailbox g)
              \<subseteq> set (pending n thread_count mat r wk) \<union> set (mailbox g) \<union> {}"
        using pw pw' by auto
      show "\<forall>f \<in> {}. good_frame n mat f" by simp
      show "\<forall>f \<in> set (pending n thread_count mat r wk) \<union> set (mailbox g). good_frame n mat f"
        by (rule assms(6))
      show "\<exists>f' \<in> set (pending n thread_count mat r ?wk') \<union> set (mailbox g). covers f' T"
        if "f \<in> set (pending n thread_count mat r wk) \<union> set (mailbox g)" "covers f T" for T f
        using that pw pw' by auto
      show "w_pc ?wk' = Done \<Longrightarrow> thread_count \<le> threads_in_cond_wait g \<and> new_stack g = None"
        using work(1) by simp
      show "idle wk \<Longrightarrow> g = g" using nid by simp
      show "w_pc ?wk' \<noteq> At_start" by simp
    qed
  next
    case last
    have pw': "pending n thread_count mat r ?wk' = frames ?s" using last(1,3) by (simp add: pending_def)
    have mb: "mailbox g' = mailbox g" using last(2) by (simp add: mailbox_waiting_update)
    show ?thesis
    proof (rule step_summaryI[where N = "{}"])
      show "worker_ok ?wk'" using last(1,3,4) by (simp add: worker_ok_def)
      show "mailbox_ok g'" using last(2,6) by (simp add: mailbox_ok_def)
      show "best_ok n mat b" by (rule assms(4))
      show "cost b \<le> cost b" by simp
      show "cost b \<le> cost (w_local_best ?wk')" using assms(5) by simp
      show "threads_in_cond_wait g' + (if idle wk then 1 else 0)
              = threads_in_cond_wait g + (if idle ?wk' then 1 else 0)"
        using nid last(1,2) by (simp add: idle_def)
      show "set (pending n thread_count mat r ?wk') \<union> set (mailbox g')
              \<subseteq> set (pending n thread_count mat r wk) \<union> set (mailbox g) \<union> {}"
        using pw pw' mb by auto
      show "\<forall>f \<in> {}. good_frame n mat f" by simp
      show "\<forall>f \<in> set (pending n thread_count mat r wk) \<union> set (mailbox g). good_frame n mat f"
        by (rule assms(6))
      show "\<exists>f' \<in> set (pending n thread_count mat r ?wk') \<union> set (mailbox g'). covers f' T"
        if "f \<in> set (pending n thread_count mat r wk) \<union> set (mailbox g)" "covers f T" for T f
        using that pw pw' mb by auto
      show "w_pc ?wk' = Done \<Longrightarrow> thread_count \<le> threads_in_cond_wait g' \<and> new_stack g' = None"
        using last(2,5,6) by simp
      show "idle wk \<Longrightarrow> g' = g" using nid by simp
      show "w_pc ?wk' \<noteq> At_start" by simp
    qed
  qed
qed

lemma summary_blocks:
  assumes "w_pc wk = At_loop" "worker_ok wk" "mailbox_ok g" "best_ok n mat b"
    and "cost b \<le> cost (w_local_best wk)"
    and "\<forall>f \<in> set (pending n thread_count mat r wk) \<union> set (mailbox g). good_frame n mat f"
    and "Terminated_entry thread_count view g (w_stack wk) = Blocked g'"
  shows "step_summary n thread_count mat r (b, g, wk) (b, g', wk\<lparr>w_pc := Waiting\<rparr>)"
proof -
  let ?s = "w_stack wk"
  let ?wk' = "wk\<lparr>w_pc := Waiting\<rparr>"
  have wf: "wf_stack ?s" using assms(1,2) by (simp add: worker_ok_def)
  have pw: "pending n thread_count mat r wk = frames ?s" using assms(1) by (simp add: pending_def)
  have pw': "pending n thread_count mat r ?wk' = frames ?s" by (simp add: pending_def)
  have nid: "\<not> idle wk" using assms(1) by (simp add: idle_def)
  have b: "g' = g\<lparr>threads_in_cond_wait := threads_in_cond_wait g + 1\<rparr>" "stk_top ?s = 0"
    using Terminated_entry_cases[OF wf, of thread_count view g] assms(7) by auto
  have mb: "mailbox g' = mailbox g" using b(1) by (simp add: mailbox_waiting_update)
  show ?thesis
  proof (rule step_summaryI[where N = "{}"])
    show "worker_ok ?wk'" using b(2) by (simp add: worker_ok_def)
    show "mailbox_ok g'" using assms(3) b(1) by (simp add: mailbox_ok_def mailbox_stack_simps)
    show "best_ok n mat b" by (rule assms(4))
    show "cost b \<le> cost b" by simp
    show "cost b \<le> cost (w_local_best ?wk')" using assms(5) by simp
    show "threads_in_cond_wait g' + (if idle wk then 1 else 0)
            = threads_in_cond_wait g + (if idle ?wk' then 1 else 0)"
      using nid b(1) by (simp add: idle_def)
    show "set (pending n thread_count mat r ?wk') \<union> set (mailbox g')
            \<subseteq> set (pending n thread_count mat r wk) \<union> set (mailbox g) \<union> {}"
      using pw pw' mb by auto
    show "\<forall>f \<in> {}. good_frame n mat f" by simp
    show "\<forall>f \<in> set (pending n thread_count mat r wk) \<union> set (mailbox g). good_frame n mat f"
      by (rule assms(6))
    show "\<exists>f' \<in> set (pending n thread_count mat r ?wk') \<union> set (mailbox g'). covers f' T"
      if "f \<in> set (pending n thread_count mat r wk) \<union> set (mailbox g)" "covers f T" for T f
      using that pw pw' mb by auto
    show "w_pc ?wk' = Done \<Longrightarrow> thread_count \<le> threads_in_cond_wait g' \<and> new_stack g' = None"
      by simp
    show "idle wk \<Longrightarrow> g' = g" using nid by simp
    show "w_pc ?wk' \<noteq> At_start" by simp
  qed
qed

lemma summary_resumes:
  assumes "w_pc wk = Woken" "worker_ok wk" "mailbox_ok g" "best_ok n mat b"
    and "cost b \<le> cost (w_local_best wk)"
    and "\<forall>f \<in> set (pending n thread_count mat r wk) \<union> set (mailbox g). good_frame n mat f"
    and "Terminated_wake thread_count g (w_stack wk) = (ret, g', s')"
  shows "step_summary n thread_count mat r (b, g, wk)
           (b, g', wk\<lparr>w_pc := (if ret = 0 then In_body else Done), w_stack := s'\<rparr>)"
proof -
  let ?s = "w_stack wk"
  let ?wk' = "wk\<lparr>w_pc := (if ret = 0 then In_body else Done), w_stack := s'\<rparr>"
  have t0: "stk_top ?s = 0" using assms(1,2) by (simp add: worker_ok_def)
  have pw: "pending n thread_count mat r wk = []"
    using assms(1) frames_top_0[OF t0] by (simp add: pending_def)
  have id: "idle wk" using assms(1) by (simp add: idle_def)
  show ?thesis
  proof (cases "threads_in_cond_wait g < thread_count \<or> new_stack g \<noteq> None")
    case True
    then have res: "ret = 0"
        "g' = g\<lparr>new_stack := None, threads_in_cond_wait := threads_in_cond_wait g - 1\<rparr>"
        "s' = mailbox_stack g"
      using assms(7) by (auto simp: Terminated_wake_def mailbox_stack_def)
    have pw': "pending n thread_count mat r ?wk' = frames (mailbox_stack g)"
      using res(1,3) by (simp add: pending_def)
    have fm: "frames (mailbox_stack g) = mailbox g"
    proof (cases "new_stack g")
      case None
      then show ?thesis by (simp add: mailbox_def frames_def mailbox_stack_def)
    next
      case (Some arr)
      then show ?thesis by (simp add: mailbox_def)
    qed
    have mb': "mailbox g' = []" using res(2) by (simp add: mailbox_def)
    show ?thesis
    proof (rule step_summaryI[where N = "{}"])
      show "worker_ok ?wk'"
      proof (cases "new_stack g")
        case None
        then show ?thesis using res(1,3) by (simp add: worker_ok_def mailbox_stack_def)
      next
        case (Some arr)
        then show ?thesis using res(1,3) assms(3) by (simp add: worker_ok_def mailbox_ok_def mailbox_stack_simps)
      qed
      show "mailbox_ok g'" using res(2) by (simp add: mailbox_ok_def)
      show "best_ok n mat b" by (rule assms(4))
      show "cost b \<le> cost b" by simp
      show "cost b \<le> cost (w_local_best ?wk')" using assms(5) by simp
      show "threads_in_cond_wait g' + (if idle wk then 1 else 0)
              = threads_in_cond_wait g + (if idle ?wk' then 1 else 0)"
        using id res(1,2) by (simp add: idle_def)
      show "set (pending n thread_count mat r ?wk') \<union> set (mailbox g')
              \<subseteq> set (pending n thread_count mat r wk) \<union> set (mailbox g) \<union> {}"
        using pw' fm mb' by simp
      show "\<forall>f \<in> {}. good_frame n mat f" by simp
      show "\<forall>f \<in> set (pending n thread_count mat r wk) \<union> set (mailbox g). good_frame n mat f"
        by (rule assms(6))
      show "\<exists>f' \<in> set (pending n thread_count mat r ?wk') \<union> set (mailbox g'). covers f' T"
        if "f \<in> set (pending n thread_count mat r wk) \<union> set (mailbox g)" "covers f T" for T f
        using that pw pw' fm by auto
      show "w_pc ?wk' = Done \<Longrightarrow> thread_count \<le> threads_in_cond_wait g' \<and> new_stack g' = None"
        using res(1) by simp
      show "thread_count \<le> threads_in_cond_wait g \<Longrightarrow> new_stack g = None \<Longrightarrow> g' = g"
        using True by simp
      show "w_pc ?wk' \<noteq> At_start" by simp
    qed
  next
    case False
    then have res: "ret = 1" "g' = g" "s' = ?s"
      using assms(7) by (auto simp: Terminated_wake_def)
    have pw': "pending n thread_count mat r ?wk' = []"
      using res(1,3) frames_top_0[OF t0] by (simp add: pending_def)
    show ?thesis
      unfolding res(2)
    proof (rule step_summaryI[where N = "{}"])
      show "worker_ok ?wk'" using res(1,3) t0 by (simp add: worker_ok_def)
      show "mailbox_ok g" by (rule assms(3))
      show "best_ok n mat b" by (rule assms(4))
      show "cost b \<le> cost b" by simp
      show "cost b \<le> cost (w_local_best ?wk')" using assms(5) by simp
      show "threads_in_cond_wait g + (if idle wk then 1 else 0)
              = threads_in_cond_wait g + (if idle ?wk' then 1 else 0)"
        using id res(1) by (simp add: idle_def)
      show "set (pending n thread_count mat r ?wk') \<union> set (mailbox g)
              \<subseteq> set (pending n thread_count mat r wk) \<union> set (mailbox g) \<union> {}"
        using pw pw' by simp
      show "\<forall>f \<in> {}. good_frame n mat f" by simp
      show "\<forall>f \<in> set (pending n thread_count mat r wk) \<union> set (mailbox g). good_frame n mat f"
        by (rule assms(6))
      show "\<exists>f' \<in> set (pending n thread_count mat r ?wk') \<union> set (mailbox g). covers f' T"
        if "f \<in> set (pending n thread_count mat r wk) \<union> set (mailbox g)" "covers f T" for T f
        using that pw pw' by auto
      show "w_pc ?wk' = Done \<Longrightarrow> thread_count \<le> threads_in_cond_wait g \<and> new_stack g = None"
        using False by simp
      show "g = g" using res(1) by simp
      show "w_pc ?wk' \<noteq> At_start" by simp
    qed
  qed
qed

lemma Pop_no_slots: "stk s = [] \<Longrightarrow> Pop s = None"
  by (simp add: Pop_def Let_def)

lemma summary_iterates:
  assumes vi: "valid_input n thread_count mat"
    and pc: "w_pc wk = In_body" and ok: "worker_ok wk" and mo: "mailbox_ok g" and bo: "best_ok n mat b"
    and lb: "cost b \<le> cost (w_local_best wk)"
    and good: "\<forall>f \<in> set (pending n thread_count mat r wk) \<union> set (mailbox g). good_frame n mat f"
    and body: "Search_body n mat (b, w_local_best wk, w_stack wk) = Some (b', local_best', s')"
  shows "step_summary n thread_count mat r (b, g, wk)
           (b', g, wk\<lparr>w_pc := At_loop, w_local_best := local_best', w_stack := s'\<rparr>)"
proof -
  let ?s = "w_stack wk"
  let ?l = "w_local_best wk"
  let ?wk' = "wk\<lparr>w_pc := At_loop, w_local_best := local_best', w_stack := s'\<rparr>"
  have v: "2 \<le> n" "valid_matrix n mat" using vi by (auto simp: valid_input_def)
  have pw: "pending n thread_count mat r wk = frames ?s" using pc by (simp add: pending_def)
  have pw': "pending n thread_count mat r ?wk' = frames s'" by (simp add: pending_def)
  have nid: "\<not> idle wk" using pc by (simp add: idle_def)
  have "stk ?s \<noteq> []" using body Pop_no_slots[of ?s] by (auto simp: Search_body_def)
  then have wf: "wf_stack ?s" "1 \<le> stk_top ?s" using ok pc by (auto simp: worker_ok_def)
  have gs: "\<forall>f \<in> set (frames ?s). good_frame n mat f" using good pw by simp
  obtain fs f s1 where P: "frames ?s = fs @ [f]" "wf_stack s1" "frames s1 = fs"
      "Search_body n mat (b, ?l, ?s) =
         Some (if int (length (extended f)) = n
               then (fst (Check_best_tour n mat (elt_city f) (extended_tour f) (b, ?l)),
                     snd (Check_best_tour n mat (elt_city f) (extended_tour f) (b, ?l)), s1)
               else (b, ?l, push_nbrs (n - 1) n mat (elt_city f) (extended_tour f) ?l s1))"
    using Search_body_effect[OF wf gs v(2), of b ?l] by blast
  have gf: "good_frame n mat f" using gs P(1) by simp
  note F = good_frame_facts[OF gf]
  have bl: "length (cities b) = nat n + 1" "cost b \<le> INFINITY" using bo by (auto simp: best_ok_def)
  have common:
    "mailbox_ok g"
    "threads_in_cond_wait g + (if idle wk then 1 else 0)
       = threads_in_cond_wait g + (if idle ?wk' then 1 else 0)"
    "w_pc ?wk' = Done \<Longrightarrow> thread_count \<le> threads_in_cond_wait g \<and> new_stack g = None"
    "idle wk \<Longrightarrow> g = g"
    "w_pc ?wk' \<noteq> At_start"
    using mo nid by (simp_all add: idle_def)
  show ?thesis
  proof (cases "int (length (extended f)) = n")
    case True
    let ?T = "extended f @ [0]"
    have C: "Check_best_tour n mat (elt_city f) (extended_tour f) (b, ?l) =
           (if path_cost n mat ?T < cost b
            then (\<lparr>cities = ?T, count = n + 1, cost = path_cost n mat ?T\<rparr>,
                  ?l\<lparr>cost := path_cost n mat ?T\<rparr>)
            else (b, ?l))"
      by (rule Check_best_tour_extended[OF gf True bl(1) v(2)])
    have res: "s' = s1"
        "b' = (if path_cost n mat ?T < cost b
               then \<lparr>cities = ?T, count = n + 1, cost = path_cost n mat ?T\<rparr> else b)"
        "local_best' = (if path_cost n mat ?T < cost b then ?l\<lparr>cost := path_cost n mat ?T\<rparr> else ?l)"
      using body P(4) True C by (auto split: if_splits)
    have ct: "complete_tour n ?T" by (rule extended_complete[OF gf True])
    have le: "cost b' \<le> path_cost n mat ?T" using res(2) by auto
    show ?thesis
    proof (rule step_summaryI[where N = "{}"])
      show "worker_ok ?wk'" using P(2) res(1) by (simp add: worker_ok_def)
      show "best_ok n mat b'"
      proof (cases "path_cost n mat ?T < cost b")
        case True
        then show ?thesis using res(2) ct bl True \<open>int (length (extended f)) = n\<close>
          by (simp add: best_ok_def)
      next
        case False
        then show ?thesis using res(2) bo by simp
      qed
      show "cost b' \<le> cost b" using res(2) by auto
      show "cost b' \<le> cost (w_local_best ?wk')" using res(2,3) lb by auto
      show "set (pending n thread_count mat r ?wk') \<union> set (mailbox g)
              \<subseteq> set (pending n thread_count mat r wk) \<union> set (mailbox g) \<union> {}"
        using pw pw' P(1,3) res(1) by auto
      show "\<forall>f \<in> {}. good_frame n mat f" by simp
      show "\<forall>f \<in> set (pending n thread_count mat r wk) \<union> set (mailbox g). good_frame n mat f"
        by (rule good)
      show "\<exists>f' \<in> set (pending n thread_count mat r ?wk') \<union> set (mailbox g). covers f' T"
        if T: "complete_tour n T" "path_cost n mat T < cost b'"
          "h \<in> set (pending n thread_count mat r wk) \<union> set (mailbox g)" "covers h T" for T h
      proof (cases "h = f")
        case True
        then have "T = ?T" using covers_complete[OF gf \<open>int (length (extended f)) = n\<close> _ T(1)] T(4) by simp
        then show ?thesis using T(2) le by simp
      next
        case False
        then have "h \<in> set fs \<union> set (mailbox g)" using T(3) pw P(1) by auto
        then show ?thesis using T(4) pw' P(3) res(1) by auto
      qed
    qed (use common in blast)+
  next
    case False
    let ?N = "new_frame n mat (elt_city f) (extended_tour f) `
               {nbr. 1 \<le> nbr \<and> nbr \<le> n - 1 \<and> Feasible n mat (elt_city f) nbr (extended_tour f) ?l}"
    have res: "b' = b" "local_best' = ?l"
        "s' = push_nbrs (n - 1) n mat (elt_city f) (extended_tour f) ?l s1"
      using body P(4) False by auto
    have PN: "wf_stack s'" "set (frames s') = set fs \<union> ?N"
      using push_nbrs_frames[OF P(2), of "n - 1" n mat "elt_city f" "extended_tour f" ?l] res(3) P(3)
      by simp_all
    show ?thesis
      unfolding res(1)
    proof (rule step_summaryI[where N = ?N])
      show "worker_ok ?wk'" using PN(1) by (simp add: worker_ok_def)
      show "best_ok n mat b" by (rule bo)
      show "cost b \<le> cost b" by simp
      show "cost b \<le> cost (w_local_best ?wk')" using res(2) lb by simp
      show "set (pending n thread_count mat r ?wk') \<union> set (mailbox g)
              \<subseteq> set (pending n thread_count mat r wk) \<union> set (mailbox g) \<union> ?N"
        using pw pw' P(1) PN(2) by auto
      show "\<forall>h \<in> ?N. good_frame n mat h"
      proof
        fix h assume "h \<in> ?N"
        then obtain nbr where nbr: "h = new_frame n mat (elt_city f) (extended_tour f) nbr"
            "1 \<le> nbr" "nbr \<le> n - 1" "Feasible n mat (elt_city f) nbr (extended_tour f) ?l"
          by auto
        have "nbr \<notin> set (extended f)"
          using nbr(2,3,4) Feasible_extended[OF gf v(2), of nbr ?l] by simp
        then show "good_frame n mat h"
          using new_frame_good(1)[OF gf False nbr(2) _ _ v(2)] nbr(1,3) by simp
      qed
      show "\<forall>f \<in> set (pending n thread_count mat r wk) \<union> set (mailbox g). good_frame n mat f"
        by (rule good)
      show "\<exists>f' \<in> set (pending n thread_count mat r ?wk') \<union> set (mailbox g). covers f' T"
        if T: "complete_tour n T" "path_cost n mat T < cost b"
          "h \<in> set (pending n thread_count mat r wk) \<union> set (mailbox g)" "covers h T" for T h
      proof (cases "h = f")
        case True
        let ?nbr = "T ! length (extended f)"
        have cv: "covers f T" using T(4) True by simp
        note N = covers_next[OF gf False cv T(1)]
        have ne: "extended f @ [?nbr] \<noteq> []" by simp
        have sT: "set T \<subseteq> {0..<n}" using complete_tour_set[OF T(1)] v(1) by simp
        have "path_cost n mat (extended f @ [?nbr]) \<le> path_cost n mat T"
          by (rule path_cost_prefix_le[OF v(2) ne N(4) sT])
        then have "path_cost n mat (extended f @ [?nbr]) < cost ?l" using T(2) lb by simp
        then have "Feasible n mat (elt_city f) ?nbr (extended_tour f) ?l"
          using Feasible_extended[OF gf v(2), of ?nbr ?l] N(1,2,3) by simp
        then have "new_frame n mat (elt_city f) (extended_tour f) ?nbr \<in> ?N"
          using N(1,2) by simp
        then have "new_frame n mat (elt_city f) (extended_tour f) ?nbr
                     \<in> set (pending n thread_count mat r ?wk') \<union> set (mailbox g)"
          unfolding pw' PN(2) by simp
        moreover have "covers (new_frame n mat (elt_city f) (extended_tour f) ?nbr) T"
          using new_frame_good(2)[OF gf False N(1,2,3) v(2)] N(4) by (simp add: covers_def)
        ultimately show ?thesis by (rule bexI[rotated])
      next
        case False
        then have "h \<in> set fs \<union> set (mailbox g)" using T(3) pw P(1) by auto
        then show ?thesis using T(4) pw' PN(2) by auto
      qed
    qed (use common in blast)+
  qed
qed

lemma worker_step_summary:
  assumes "valid_input n thread_count mat" "r < nat thread_count"
    and "worker_step n thread_count mat garbage_0 r (b, g, wk) wake_call (b', g', wk')"
    and "worker_ok wk" "mailbox_ok g" "best_ok n mat b" "cost b \<le> cost (w_local_best wk)"
    and "\<forall>f \<in> set (pending n thread_count mat r wk) \<union> set (mailbox g). good_frame n mat f"
  shows "step_summary n thread_count mat r (b, g, wk) (b', g', wk')"
  using assms(3)
proof (cases rule: worker_step.cases)
  case starts
  then show ?thesis using summary_starts[OF assms(1,2) _ assms(5,6,8)] by simp
next
  case (returns view ret s')
  then show ?thesis using summary_returns[OF _ assms(4,5,6,7,8)] by simp
next
  case (blocks view)
  then show ?thesis using summary_blocks[OF _ assms(4,5,6,7,8)] by simp
next
  case (resumes ret s')
  then show ?thesis using summary_resumes[OF _ assms(4,5,6,7,8)] by simp
next
  case (iterates local_best' s')
  then show ?thesis using summary_iterates[OF assms(1) _ assms(4,5,6,7,8)] by simp
qed

section \<open>The invariant\<close>
lemma idle_count_le: "idle_count ws \<le> int (length ws)"
proof -
  have "(\<Sum>v < length ws. if idle (ws ! v) then 1 else 0) \<le> (\<Sum>v < length ws. (1::int))"
    by (intro sum_mono) simp
  then show ?thesis by (simp add: idle_count_def)
qed

lemma idle_count_all:
  assumes "idle_count ws = int (length ws)" "v < length ws"
  shows "idle (ws ! v)"
proof (rule ccontr)
  assume n: "\<not> idle (ws ! v)"
  have "(\<Sum>u < length ws. if idle (ws ! u) then 1 else 0)
          = (if idle (ws ! v) then 1 else 0) + (\<Sum>u \<in> {..<length ws} - {v}. if idle (ws ! u) then 1 else (0::int))"
    using assms(2) by (intro sum.remove) auto
  also have "\<dots> = (\<Sum>u \<in> {..<length ws} - {v}. if idle (ws ! u) then 1 else (0::int))"
    using n by simp
  also have "\<dots> \<le> (\<Sum>u \<in> {..<length ws} - {v}. (1::int))"
    by (intro sum_mono) simp
  also have "\<dots> = int (length ws) - 1" using assms(2) by simp
  finally show False using assms(1) by (simp add: idle_count_def)
qed

lemma idle_count_update:
  assumes "r < length ws" "length ws' = length ws"
    and "\<forall>v < length ws. v \<noteq> r \<longrightarrow> idle (ws' ! v) = idle (ws ! v)"
  shows "idle_count ws' + (if idle (ws ! r) then 1 else 0)
           = idle_count ws + (if idle (ws' ! r) then 1 else 0)"
proof -
  let ?A = "{..<length ws} - {r}"
  have a: "idle_count ws = (if idle (ws ! r) then 1 else 0) + (\<Sum>u \<in> ?A. if idle (ws ! u) then 1 else 0)"
    unfolding idle_count_def using assms(1) by (intro sum.remove) auto
  have b: "idle_count ws' = (if idle (ws' ! r) then 1 else 0) + (\<Sum>u \<in> ?A. if idle (ws' ! u) then 1 else 0)"
    unfolding idle_count_def assms(2) using assms(1) by (intro sum.remove) auto
  have "(\<Sum>u \<in> ?A. if idle (ws' ! u) then 1 else (0::int)) = (\<Sum>u \<in> ?A. if idle (ws ! u) then 1 else 0)"
    using assms(3) by (intro sum.cong) auto
  then show ?thesis using a b by simp
qed

lemma live_split:
  assumes "r < length ws"
  shows "live n thread_count mat ws g =
           (\<Union>v \<in> {..<length ws} - {r}. set (pending n thread_count mat v (ws ! v)))
           \<union> (set (pending n thread_count mat r (ws ! r)) \<union> set (mailbox g))"
  unfolding live_def using assms by auto

lemma woken_by_same:
  assumes "woken_by wake_call ws1 ws'"
  shows "length ws' = length ws1 \<and> (\<forall>v < length ws1. ws' ! v = ws1 ! v \<or> ws' ! v = wake_up (ws1 ! v))"
  using assms
proof (cases rule: woken_by.cases)
  case no_wake
  then show ?thesis by simp
next
  case (signal_one v)
  then show ?thesis by (auto simp: nth_list_update)
next
  case signal_none
  then show ?thesis by simp
next
  case broadcast
  then show ?thesis by simp
qed

lemma Inv_after:
  assumes inv: "Inv n thread_count mat \<lparr>sys_best = b, sys_globals = g, sys_workers = ws\<rparr>"
    and r: "r < length ws"
    and sm: "step_summary n thread_count mat r (b, g, ws ! r) (b', g', wk')"
    and len: "length ws' = length ws"
    and same: "\<forall>v < length ws. ws' ! v = (ws[r := wk']) ! v \<or> ws' ! v = wake_up ((ws[r := wk']) ! v)"
  shows "Inv n thread_count mat \<lparr>sys_best = b', sys_globals = g', sys_workers = ws'\<rparr>"
proof -
  have I: "length ws = nat thread_count"
      "\<forall>v < length ws. worker_ok (ws ! v) \<and> cost b \<le> cost (w_local_best (ws ! v))"
      "threads_in_cond_wait g = idle_count ws"
      "(\<exists>v < length ws. w_pc (ws ! v) = Done) \<longrightarrow> threads_in_cond_wait g = thread_count \<and> new_stack g = None"
      "\<forall>f \<in> live n thread_count mat ws g. good_frame n mat f"
      "\<forall>T. complete_tour n T \<and> path_cost n mat T < cost b \<longrightarrow> (\<exists>f \<in> live n thread_count mat ws g. covers f T)"
    using inv unfolding Inv_def system.select_convs by blast+
  let ?wk = "ws ! r"
  have S: "worker_ok wk'" "mailbox_ok g'" "best_ok n mat b'" "cost b' \<le> cost b"
      "cost b' \<le> cost (w_local_best wk')"
      "threads_in_cond_wait g' + (if idle ?wk then 1 else 0)
          = threads_in_cond_wait g + (if idle wk' then 1 else 0)"
      "\<forall>f \<in> set (pending n thread_count mat r wk') \<union> set (mailbox g'). good_frame n mat f"
      "\<forall>T. complete_tour n T \<and> path_cost n mat T < cost b' \<and>
              (\<exists>f \<in> set (pending n thread_count mat r ?wk) \<union> set (mailbox g). covers f T) \<longrightarrow>
              (\<exists>f \<in> set (pending n thread_count mat r wk') \<union> set (mailbox g'). covers f T)"
      "w_pc wk' = Done \<longrightarrow> thread_count \<le> threads_in_cond_wait g' \<and> new_stack g' = None"
      "thread_count \<le> threads_in_cond_wait g \<and> new_stack g = None \<and> idle ?wk \<longrightarrow> g' = g"
    using sm unfolding step_summary_def prod.case by blast+
  have other: "ws' ! v = ws ! v \<or> ws' ! v = wake_up (ws ! v)" if "v < length ws" "v \<noteq> r" for v
  proof -
    have "ws[r := wk'] ! v = ws ! v" using that by simp
    then show ?thesis using same that(1) by metis
  qed
  have self: "ws' ! r = wk' \<or> ws' ! r = wake_up wk'"
  proof -
    have "ws[r := wk'] ! r = wk'" using r by simp
    then show ?thesis using same r by metis
  qed
  have o_ok: "worker_ok (ws' ! v) = worker_ok (ws ! v)" "idle (ws' ! v) = idle (ws ! v)"
      "pending n thread_count mat v (ws' ! v) = pending n thread_count mat v (ws ! v)"
      "w_local_best (ws' ! v) = w_local_best (ws ! v)" "(w_pc (ws' ! v) = Done) = (w_pc (ws ! v) = Done)"
    if "v < length ws" "v \<noteq> r" for v
    using other[OF that] wake_up_same by auto
  have s_ok: "worker_ok (ws' ! r) = worker_ok wk'" "idle (ws' ! r) = idle wk'"
      "pending n thread_count mat r (ws' ! r) = pending n thread_count mat r wk'"
      "w_local_best (ws' ! r) = w_local_best wk'" "(w_pc (ws' ! r) = Done) = (w_pc wk' = Done)"
    using self wake_up_same by auto
  have r': "r < length ws'" using r len by simp
  have tc: "0 < thread_count" "int (length ws) = thread_count" using r I(1) by linarith+
  have live': "live n thread_count mat ws' g' =
           (\<Union>v \<in> {..<length ws} - {r}. set (pending n thread_count mat v (ws ! v)))
           \<union> (set (pending n thread_count mat r wk') \<union> set (mailbox g'))"
    unfolding live_split[OF r'] len s_ok(3) using o_ok(3) by auto
  note live0 = live_split[OF r, of n thread_count mat g]
  have cnt: "threads_in_cond_wait g' = idle_count ws'"
  proof -
    have "idle_count ws' + (if idle ?wk then 1 else 0) = idle_count ws + (if idle (ws' ! r) then 1 else 0)"
      using idle_count_update[OF r len] o_ok(2) by simp
    then show ?thesis using S(6) I(3) s_ok(2) by simp
  qed
  show ?thesis
    unfolding Inv_def system.select_convs
  proof (intro conjI)
    show "length ws' = nat thread_count" using len I(1) by simp
    show "\<forall>v < length ws'. worker_ok (ws' ! v) \<and> cost b' \<le> cost (w_local_best (ws' ! v))"
    proof (intro allI impI)
      fix v assume v: "v < length ws'"
      show "worker_ok (ws' ! v) \<and> cost b' \<le> cost (w_local_best (ws' ! v))"
      proof (cases "v = r")
        case True
        then show ?thesis using s_ok(1,4) S(1,5) by simp
      next
        case False
        then show ?thesis using o_ok(1,4)[of v] v len I(2) S(4) by fastforce
      qed
    qed
    show "mailbox_ok g'" by (rule S(2))
    show "best_ok n mat b'" by (rule S(3))
    show "threads_in_cond_wait g' = idle_count ws'" by (rule cnt)
    show "(\<exists>v < length ws'. w_pc (ws' ! v) = Done) \<longrightarrow>
            threads_in_cond_wait g' = thread_count \<and> new_stack g' = None"
    proof
      assume "\<exists>v < length ws'. w_pc (ws' ! v) = Done"
      then obtain v where v: "v < length ws" "w_pc (ws' ! v) = Done" using len by auto
      show "threads_in_cond_wait g' = thread_count \<and> new_stack g' = None"
      proof (cases "v = r")
        case True
        then have "thread_count \<le> threads_in_cond_wait g'" "new_stack g' = None"
          using v(2) s_ok(5) S(9) by simp_all
        moreover have "threads_in_cond_wait g' \<le> thread_count"
          using cnt idle_count_le[of ws'] len tc by simp
        ultimately show ?thesis by simp
      next
        case False
        then have "w_pc (ws ! v) = Done" using o_ok(5)[of v] v by simp
        then have d: "threads_in_cond_wait g = thread_count" "new_stack g = None"
          using I(4) v(1) by auto
        then have "idle_count ws = int (length ws)" using I(3) tc by simp
        then have "idle ?wk" using idle_count_all r by blast
        then have "g' = g" using S(10) d by simp
        then show ?thesis using d by simp
      qed
    qed
    show "\<forall>f \<in> live n thread_count mat ws' g'. good_frame n mat f"
      unfolding live' using I(5) S(7) unfolding live0 by blast
    show "\<forall>T. complete_tour n T \<and> path_cost n mat T < cost b' \<longrightarrow>
            (\<exists>f \<in> live n thread_count mat ws' g'. covers f T)"
    proof (intro allI impI)
      fix T assume T: "complete_tour n T \<and> path_cost n mat T < cost b'"
      then have "path_cost n mat T < cost b" using S(4) by simp
      then obtain f where f: "f \<in> live n thread_count mat ws g" "covers f T" using I(6) T by blast
      show "\<exists>f \<in> live n thread_count mat ws' g'. covers f T"
      proof (cases "f \<in> set (pending n thread_count mat r ?wk) \<union> set (mailbox g)")
        case True
        then obtain f' where "f' \<in> set (pending n thread_count mat r wk') \<union> set (mailbox g')" "covers f' T"
          using S(8) T f(2) by blast
        then show ?thesis unfolding live' by blast
      next
        case False
        then have "f \<in> (\<Union>v \<in> {..<length ws} - {r}. set (pending n thread_count mat v (ws ! v)))"
          using f(1) unfolding live0 by blast
        then show ?thesis using f(2) unfolding live' by blast
      qed
    qed
  qed
qed

lemma system_eta:
  "\<lparr>sys_best = sys_best \<sigma>, sys_globals = sys_globals \<sigma>, sys_workers = sys_workers \<sigma>\<rparr> = \<sigma>"
  by (cases \<sigma>) simp

lemma Inv_initially:
  assumes "valid_input n thread_count mat"
  shows "Inv n thread_count mat (initial_system n thread_count)"
proof -
  let ?ws = "replicate (nat thread_count) initial_worker"
  have v: "2 \<le> n" "1 \<le> thread_count" using assms by (auto simp: valid_input_def)
  have w: "?ws ! u = initial_worker" if "u < nat thread_count" for u using that by simp
  have pend: "pending n thread_count mat u (?ws ! u)
                = frames (initial_stack n thread_count mat garbage_0 (int u))"
    if "u < nat thread_count" for u
    using w[OF that] by (simp add: pending_def initial_worker_def)
  have lv: "live n thread_count mat ?ws initial_globals
              = (\<Union>u < nat thread_count. set (frames (initial_stack n thread_count mat garbage_0 (int u))))"
    unfolding live_def using pend by (simp add: mailbox_def initial_globals_def)
  have ic: "idle_count ?ws = 0"
    unfolding idle_count_def by (intro sum.neutral) (simp add: idle_def initial_worker_def)
  show ?thesis
    unfolding Inv_def initial_system_def system.select_convs
  proof (intro conjI)
    show "length ?ws = nat thread_count" by simp
    show "\<forall>u < length ?ws. worker_ok (?ws ! u) \<and> cost (initial_best_tour n) \<le> cost (w_local_best (?ws ! u))"
      by (simp add: worker_ok_def initial_worker_def initial_best_tour_def initial_local_best_def)
    show "mailbox_ok initial_globals" by (simp add: mailbox_ok_def initial_globals_def)
    show "best_ok n mat (initial_best_tour n)"
      using v(1) by (simp add: best_ok_def initial_best_tour_def Initialize_tour_def nat_add_distrib)
    show "threads_in_cond_wait initial_globals = idle_count ?ws"
      using ic by (simp add: initial_globals_def)
    show "(\<exists>u < length ?ws. w_pc (?ws ! u) = Done) \<longrightarrow>
            threads_in_cond_wait initial_globals = thread_count \<and> new_stack initial_globals = None"
      by (auto simp: initial_worker_def)
    show "\<forall>f \<in> live n thread_count mat ?ws initial_globals. good_frame n mat f"
      unfolding lv using initial_frames_good[OF assms] by blast
    show "\<forall>T. complete_tour n T \<and> path_cost n mat T < cost (initial_best_tour n) \<longrightarrow>
            (\<exists>f \<in> live n thread_count mat ?ws initial_globals. covers f T)"
      unfolding lv using initial_frames_cover[OF assms] by blast
  qed
qed

lemma summary_stutter:
  assumes "Inv n thread_count mat \<sigma>" "r < length (sys_workers \<sigma>)" "w_pc (sys_workers \<sigma> ! r) = Waiting"
  shows "step_summary n thread_count mat r (sys_best \<sigma>, sys_globals \<sigma>, sys_workers \<sigma> ! r)
           (sys_best \<sigma>, sys_globals \<sigma>, sys_workers \<sigma> ! r)"
proof (rule step_summaryI[where N = "{}"])
  let ?wk = "sys_workers \<sigma> ! r"
  have I: "worker_ok ?wk \<and> cost (sys_best \<sigma>) \<le> cost (w_local_best ?wk)"
      "mailbox_ok (sys_globals \<sigma>)" "best_ok n mat (sys_best \<sigma>)"
      "\<forall>f \<in> live n thread_count mat (sys_workers \<sigma>) (sys_globals \<sigma>). good_frame n mat f"
    using assms(1,2) unfolding Inv_def by blast+
  show "worker_ok ?wk" "cost (sys_best \<sigma>) \<le> cost (w_local_best ?wk)" using I(1) by simp_all
  show "mailbox_ok (sys_globals \<sigma>)" "best_ok n mat (sys_best \<sigma>)" using I(2,3) by simp_all
  show "\<forall>f \<in> set (pending n thread_count mat r ?wk) \<union> set (mailbox (sys_globals \<sigma>)). good_frame n mat f"
    using I(4) unfolding live_split[OF assms(2)] by blast
  show "w_pc ?wk = Done \<Longrightarrow> thread_count \<le> threads_in_cond_wait (sys_globals \<sigma>) \<and> new_stack (sys_globals \<sigma>) = None"
    using assms(3) by simp
  show "w_pc ?wk \<noteq> At_start" using assms(3) by simp
qed auto

lemma Inv_step:
  assumes vi: "valid_input n thread_count mat"
    and inv: "Inv n thread_count mat \<sigma>" and st: "step n thread_count mat garbage_0 \<sigma> \<sigma>'"
  shows "Inv n thread_count mat \<sigma>'"
  using st
proof (cases rule: step.cases)
  case (of_worker r wake_call b' g' wk' ws')
  let ?b = "sys_best \<sigma>" and ?g = "sys_globals \<sigma>" and ?ws = "sys_workers \<sigma>"
  have sig: "\<sigma> = \<lparr>sys_best = ?b, sys_globals = ?g, sys_workers = ?ws\<rparr>" by simp
  have r: "r < nat thread_count" using of_worker(2) inv unfolding Inv_def by simp
  have I: "worker_ok (?ws ! r)" "cost ?b \<le> cost (w_local_best (?ws ! r))"
      "mailbox_ok ?g" "best_ok n mat ?b"
      "\<forall>f \<in> live n thread_count mat ?ws ?g. good_frame n mat f"
    using inv of_worker(2) unfolding Inv_def by blast+
  have good: "\<forall>f \<in> set (pending n thread_count mat r (?ws ! r)) \<union> set (mailbox ?g). good_frame n mat f"
    using I(5) unfolding live_split[OF of_worker(2)] by blast
  have sm: "step_summary n thread_count mat r (?b, ?g, ?ws ! r) (b', g', wk')"
    by (rule worker_step_summary[OF vi r of_worker(3) I(1,3,4,2) good])
  note W = woken_by_same[OF of_worker(4)]
  have "Inv n thread_count mat \<lparr>sys_best = b', sys_globals = g', sys_workers = ws'\<rparr>"
  proof (rule Inv_after[OF _ of_worker(2) sm])
    show "Inv n thread_count mat \<lparr>sys_best = ?b, sys_globals = ?g, sys_workers = ?ws\<rparr>"
      using inv by (simp add: system_eta)
    show "length ws' = length ?ws" using W by simp
    show "\<forall>v < length ?ws. ws' ! v = (?ws[r := wk']) ! v \<or> ws' ! v = wake_up ((?ws[r := wk']) ! v)"
      using W by simp
  qed
  then show ?thesis using of_worker(1) by simp
next
  case (spurious r)
  let ?b = "sys_best \<sigma>" and ?g = "sys_globals \<sigma>" and ?ws = "sys_workers \<sigma>"
  let ?ws' = "?ws[r := wake_up (?ws ! r)]"
  have sm: "step_summary n thread_count mat r (?b, ?g, ?ws ! r) (?b, ?g, ?ws ! r)"
    by (rule summary_stutter[OF inv spurious(2,3)])
  have "Inv n thread_count mat \<lparr>sys_best = ?b, sys_globals = ?g, sys_workers = ?ws'\<rparr>"
  proof (rule Inv_after[OF _ spurious(2) sm])
    show "Inv n thread_count mat \<lparr>sys_best = ?b, sys_globals = ?g, sys_workers = ?ws\<rparr>"
      using inv by (simp add: system_eta)
    show "length ?ws' = length ?ws" by simp
    show "\<forall>v < length ?ws. ?ws' ! v = (?ws[r := ?ws ! r]) ! v \<or> ?ws' ! v = wake_up ((?ws[r := ?ws ! r]) ! v)"
      using spurious(2) by (auto simp: nth_list_update)
  qed
  moreover have "\<sigma>' = \<lparr>sys_best = ?b, sys_globals = ?g, sys_workers = ?ws'\<rparr>"
    using spurious(1) by simp
  ultimately show ?thesis by simp
qed

lemma reachable_Inv:
  assumes "valid_input n thread_count mat" "reachable n thread_count mat garbage_0 \<sigma>"
  shows "Inv n thread_count mat \<sigma>"
  using assms(2)
proof (induction rule: reachable.induct)
  case initially
  then show ?case by (rule Inv_initially[OF assms(1)])
next
  case (after_step \<sigma> \<sigma>')
  then show ?case using Inv_step[OF assms(1)] by blast
qed

lemma Inv_all_done:
  assumes vi: "valid_input n thread_count mat" and inv: "Inv n thread_count mat \<sigma>"
    and dn: "all_done \<sigma>" and T: "complete_tour n T"
  shows "cost (sys_best \<sigma>) \<le> path_cost n mat T"
proof (rule ccontr)
  assume "\<not> cost (sys_best \<sigma>) \<le> path_cost n mat T"
  then have lt: "path_cost n mat T < cost (sys_best \<sigma>)" by simp
  let ?ws = "sys_workers \<sigma>" and ?g = "sys_globals \<sigma>"
  have I: "length ?ws = nat thread_count" "\<forall>v < length ?ws. worker_ok (?ws ! v)"
      "(\<exists>v < length ?ws. w_pc (?ws ! v) = Done) \<longrightarrow> new_stack ?g = None"
      "\<exists>f \<in> live n thread_count mat ?ws ?g. covers f T"
    using inv T lt unfolding Inv_def by blast+
  have d: "w_pc (?ws ! v) = Done" if "v < length ?ws" for v
    using dn that by (simp add: all_done_def list_all_length)
  have "0 < length ?ws" using I(1) vi by (simp add: valid_input_def)
  then have "new_stack ?g = None" using I(3) d by blast
  then have mb: "mailbox ?g = []" by (rule mailbox_empty)
  have "pending n thread_count mat v (?ws ! v) = []" if "v < length ?ws" for v
  proof -
    have "worker_ok (?ws ! v)" using I(2) that by blast
    then have "stk_top (w_stack (?ws ! v)) = 0" using d[OF that] by (simp add: worker_ok_def)
    then show ?thesis using d[OF that] frames_top_0 by (simp add: pending_def)
  qed
  then have "live n thread_count mat ?ws ?g = {}" using mb by (simp add: live_def)
  then show False using I(4) by simp
qed

section \<open>The sums of a run\<close>

text \<open>
  On a valid input the sums the loop body computes on a frame of a reachable state are
  \<^verbatim>\<open>int\<close>s: \<^verbatim>\<open>tour_p->cost + cost\<close> after the pop, and that sum plus \<^verbatim>\<open>mat[n*city + nbr]\<close> in
  \<^verbatim>\<open>Feasible\<close> and (with \<open>nbr = 0\<close>) in \<^verbatim>\<open>Check_best_tour\<close>. No addition of such a run
  wraps.
\<close>

lemma sums_within_int:
  assumes vi: "valid_input n thread_count mat"
    and r: "reachable n thread_count mat garbage_0 \<sigma>"
    and f: "f \<in> live n thread_count mat (sys_workers \<sigma>) (sys_globals \<sigma>)"
    and nbr: "0 \<le> nbr" "nbr < n"
  shows "in_int (cost (elt_tour_p f) + elt_cost f) \<and>
         in_int (cost (elt_tour_p f) + elt_cost f + mat_at mat (n * elt_city f + nbr))"
proof -
  have vm: "valid_matrix n mat" using vi by (simp add: valid_input_def)
  have gf: "good_frame n mat f"
    using reachable_Inv[OF vi r] f unfolding Inv_def by blast
  show ?thesis using frame_sums[OF gf vm nbr] by simp
qed

section \<open>Runs of one worker\<close>
lemma solo_step:
  assumes "worker_step n thread_count mat garbage 0 (b, g, wk) No_wake (b', g', wk')"
  shows "step n thread_count mat garbage \<lparr>sys_best = b, sys_globals = g, sys_workers = [wk]\<rparr>
           \<lparr>sys_best = b', sys_globals = g', sys_workers = [wk']\<rparr>"
proof -
  let ?\<sigma> = "\<lparr>sys_best = b, sys_globals = g, sys_workers = [wk]\<rparr>"
  have "step n thread_count mat garbage ?\<sigma> \<lparr>sys_best = b', sys_globals = g', sys_workers = (sys_workers ?\<sigma>)[0 := wk']\<rparr>"
    by (rule step.of_worker[where r = 0 and wake_call = No_wake and wk' = wk'])
       (use assms in \<open>simp_all add: woken_by.no_wake\<close>)
  then show ?thesis by simp
qed

lemma solo_last_step:
  assumes "worker_step n thread_count mat garbage 0 (b, g, wk) Broadcast (b', g', wk')"
    and "w_pc wk' = Done"
  shows "step n thread_count mat garbage \<lparr>sys_best = b, sys_globals = g, sys_workers = [wk]\<rparr>
           \<lparr>sys_best = b', sys_globals = g', sys_workers = [wk']\<rparr>"
proof -
  let ?\<sigma> = "\<lparr>sys_best = b, sys_globals = g, sys_workers = [wk]\<rparr>"
  have "woken_by Broadcast ((sys_workers ?\<sigma>)[0 := wk']) (map wake_up ((sys_workers ?\<sigma>)[0 := wk']))"
    by (rule woken_by.broadcast)
  moreover have "map wake_up ((sys_workers ?\<sigma>)[0 := wk']) = [wk']"
    using assms(2) by (simp add: wake_up_def)
  ultimately have w: "woken_by Broadcast ((sys_workers ?\<sigma>)[0 := wk']) [wk']" by simp
  show ?thesis
    by (rule step.of_worker[where r = 0 and wake_call = Broadcast and wk' = wk' and \<sigma> = ?\<sigma>, OF _ _ w])
       (use assms in simp_all)
qed

lemma initial_stack_one_worker:
  "initial_stack 2 1 mat garbage_0 0 =
     \<lparr>stk = [Some \<lparr>elt_tour_p = \<lparr>cities = [0, - 1, - 1], count = 1, cost = 0\<rparr>, elt_city = 1,
                   elt_cost = int_add 0 (mat_at mat 1)\<rparr>, None, None, None],
      stk_top = 1, stk_size = 4\<rparr>"
  by (simp add: initial_stack_def Fill_stack_def c_div_def c_mod_def Let_def fill_from.simps
      malloc_slots_def first_tour_def Initialize_tour_def NO_CITY_def garbage_0_def numeral_eq_Suc)

lemma one_worker_run:
  assumes "int_add (int_add 0 (int_add 0 (mat_at mat 1))) (mat_at mat 2) = tot"
  shows "reachable 2 1 mat garbage_0
     \<lparr>sys_best = (if tot < 1000000 then \<lparr>cities = [0, 1, 0], count = 3, cost = tot\<rparr>
                  else \<lparr>cities = [- 1, - 1, - 1], count = 0, cost = 1000000\<rparr>),
      sys_globals = \<lparr>threads_in_cond_wait = 1, new_stack = None, new_stack_size = 0, new_stack_top = 0\<rparr>,
      sys_workers =
        [\<lparr>w_pc = Done, w_stack = \<lparr>stk = [None, None, None, None], stk_top = 0, stk_size = 4\<rparr>,
          w_local_best = \<lparr>cities = [], count = 0, cost = (if tot < 1000000 then tot else 1000000)\<rparr>\<rparr>]\<rparr>"
proof -
  let ?b0 = "\<lparr>cities = [- 1, - 1, - 1], count = 0, cost = 1000000\<rparr>"
  let ?l0 = "\<lparr>cities = [], count = 0, cost = 1000000\<rparr>"
  let ?g0 = "\<lparr>threads_in_cond_wait = 0, new_stack = None, new_stack_size = 0, new_stack_top = 0\<rparr>"
  let ?g1 = "\<lparr>threads_in_cond_wait = 1, new_stack = None, new_stack_size = 0, new_stack_top = 0\<rparr>"
  let ?f = "\<lparr>elt_tour_p = \<lparr>cities = [0, - 1, - 1], count = 1, cost = 0\<rparr>, elt_city = 1,
             elt_cost = int_add 0 (mat_at mat 1)\<rparr>"
  let ?s1 = "\<lparr>stk = [Some ?f, None, None, None], stk_top = 1, stk_size = 4\<rparr>"
  let ?s2 = "\<lparr>stk = [None, None, None, None], stk_top = 0, stk_size = 4\<rparr>"
  let ?b1 = "if tot < 1000000 then \<lparr>cities = [0, 1, 0], count = 3, cost = tot\<rparr> else ?b0"
  let ?l1 = "\<lparr>cities = [], count = 0, cost = (if tot < 1000000 then tot else 1000000)\<rparr>"
  let ?view = "\<lparr>seen_waiting = 0, seen_mailbox_empty = True, trylock_ok = True\<rparr>"
  let ?w0 = "\<lparr>w_pc = At_start, w_stack = \<lparr>stk = [], stk_top = 0, stk_size = 0\<rparr>, w_local_best = ?l0\<rparr>"
  let ?w1 = "\<lparr>w_pc = At_loop, w_stack = ?s1, w_local_best = ?l0\<rparr>"
  let ?w2 = "\<lparr>w_pc = In_body, w_stack = ?s1, w_local_best = ?l0\<rparr>"
  let ?w3 = "\<lparr>w_pc = At_loop, w_stack = ?s2, w_local_best = ?l1\<rparr>"
  let ?w4 = "\<lparr>w_pc = Done, w_stack = ?s2, w_local_best = ?l1\<rparr>"
  have i: "initial_system 2 1 = \<lparr>sys_best = ?b0, sys_globals = ?g0, sys_workers = [?w0]\<rparr>"
    by (simp add: initial_system_def initial_best_tour_def Initialize_tour_def NO_CITY_def INFINITY_def
        initial_globals_def initial_worker_def initial_local_best_def numeral_eq_Suc)
  have r0: "reachable 2 1 mat garbage_0 \<lparr>sys_best = ?b0, sys_globals = ?g0, sys_workers = [?w0]\<rparr>"
    using reachable.initially[of 2 1 mat garbage_0] i by simp
  have "worker_step 2 1 mat garbage_0 0 (?b0, ?g0, ?w0) No_wake
          (?b0, ?g0, \<lparr>w_pc = At_loop, w_stack = initial_stack 2 1 mat garbage_0 (int 0),
                       w_local_best = initial_local_best\<rparr>)"
    by (rule worker_step.starts) simp
  then have "worker_step 2 1 mat garbage_0 0 (?b0, ?g0, ?w0) No_wake (?b0, ?g0, ?w1)"
    by (simp add: initial_stack_one_worker initial_local_best_def INFINITY_def)
  then have r1: "reachable 2 1 mat garbage_0 \<lparr>sys_best = ?b0, sys_globals = ?g0, sys_workers = [?w1]\<rparr>"
    using reachable.after_step[OF r0 solo_step] by blast
  have "Terminated_entry 1 ?view ?g0 (w_stack ?w1) = Returned 0 No_wake ?g0 ?s1"
    by (simp add: Terminated_entry_def Empty_def)
  then have "worker_step 2 1 mat garbage_0 0 (?b0, ?g0, ?w1) No_wake
               (?b0, ?g0, ?w1\<lparr>w_pc := (if (0::int) = 0 then In_body else Done), w_stack := ?s1\<rparr>)"
    by (intro worker_step.returns) simp_all
  then have "worker_step 2 1 mat garbage_0 0 (?b0, ?g0, ?w1) No_wake (?b0, ?g0, ?w2)" by simp
  then have r2: "reachable 2 1 mat garbage_0 \<lparr>sys_best = ?b0, sys_globals = ?g0, sys_workers = [?w2]\<rparr>"
    using reachable.after_step[OF r1 solo_step] by blast
  have "Search_body 2 mat (?b0, w_local_best ?w2, w_stack ?w2) = Some (?b1, ?l1, ?s2)"
    using assms
    by (simp add: Search_body_def Pop_def Let_def Check_best_tour_cases copy_cities.simps)
  then have "worker_step 2 1 mat garbage_0 0 (?b0, ?g0, ?w2) No_wake
               (?b1, ?g0, ?w2\<lparr>w_pc := At_loop, w_local_best := ?l1, w_stack := ?s2\<rparr>)"
    by (intro worker_step.iterates) simp_all
  then have "worker_step 2 1 mat garbage_0 0 (?b0, ?g0, ?w2) No_wake (?b1, ?g0, ?w3)" by simp
  then have r3: "reachable 2 1 mat garbage_0 \<lparr>sys_best = ?b1, sys_globals = ?g0, sys_workers = [?w3]\<rparr>"
    using reachable.after_step[OF r2 solo_step] by blast
  have "Terminated_entry 1 ?view ?g0 (w_stack ?w3) = Returned 1 Broadcast ?g1 ?s2"
    by (simp add: Terminated_entry_def Empty_def)
  then have "worker_step 2 1 mat garbage_0 0 (?b1, ?g0, ?w3) Broadcast
               (?b1, ?g1, ?w3\<lparr>w_pc := (if (1::int) = 0 then In_body else Done), w_stack := ?s2\<rparr>)"
    by (intro worker_step.returns) simp_all
  then have "worker_step 2 1 mat garbage_0 0 (?b1, ?g0, ?w3) Broadcast (?b1, ?g1, ?w4)" by simp
  then have "step 2 1 mat garbage_0 \<lparr>sys_best = ?b1, sys_globals = ?g0, sys_workers = [?w3]\<rparr>
               \<lparr>sys_best = ?b1, sys_globals = ?g1, sys_workers = [?w4]\<rparr>"
    by (rule solo_last_step) simp
  then show ?thesis using reachable.after_step[OF r3] by blast
qed

section \<open>Two runs of one worker\<close>

lemma dear_final_reachable: "reachable 2 1 dear_matrix garbage_0 dear_final"
  using one_worker_run[of dear_matrix 2000000]
  by (simp add: dear_matrix_def dear_final_def mat_at_def int_add_def INT_MIN_def)

lemma wrap_final_reachable: "reachable 2 1 wrap_pair garbage_0 wrap_final"
  using one_worker_run[of wrap_pair "- 2147483644"]
  by (simp add: wrap_pair_def wrap_final_def mat_at_def int_add_def INT_MIN_def)

lemma complete_tour_010: "complete_tour 2 [0, 1, 0]"
proof -
  have "{0..<2::int} = {0, 1}" by auto
  then show ?thesis by (simp add: complete_tour_def numeral_2_eq_2)
qed

section \<open>A run of two workers\<close>
lemma quiet_step:
  assumes "r < length ws"
    and "worker_step n thread_count mat garbage r (b, g, ws ! r) No_wake (b', g', wk')"
  shows "step n thread_count mat garbage \<lparr>sys_best = b, sys_globals = g, sys_workers = ws\<rparr>
           \<lparr>sys_best = b', sys_globals = g', sys_workers = ws[r := wk']\<rparr>"
  by (rule step.of_worker[where r = r and wake_call = No_wake and wk' = wk'])
     (use assms in \<open>simp_all add: woken_by.no_wake\<close>)

lemma initial_stacks_three_cities:
  "initial_stack 3 2 three_cities garbage_0 0 =
     \<lparr>stk = [Some \<lparr>elt_tour_p = \<lparr>cities = [0, - 1, - 1, - 1], count = 1, cost = 0\<rparr>, elt_city = 1,
                   elt_cost = 1\<rparr>, None, None, None, None, None],
      stk_top = 1, stk_size = 6\<rparr>"
  "initial_stack 3 2 three_cities garbage_0 1 =
     \<lparr>stk = [Some \<lparr>elt_tour_p = \<lparr>cities = [0, - 1, - 1, - 1], count = 1, cost = 0\<rparr>, elt_city = 2,
                   elt_cost = 2\<rparr>, None, None, None, None, None],
      stk_top = 1, stk_size = 6\<rparr>"
  by (simp_all add: initial_stack_def Fill_stack_def c_div_def c_mod_def Let_def fill_from.simps
      malloc_slots_def first_tour_def Initialize_tour_def NO_CITY_def garbage_0_def numeral_eq_Suc
      three_cities_def mat_at_def int_add_def INT_MIN_def)

lemma before_commit_reachable: "reachable 3 2 three_cities garbage_0 before_commit"
proof -
  let ?b0 = "\<lparr>cities = [- 1, - 1, - 1, - 1], count = 0, cost = 1000000\<rparr>"
  let ?l0 = "\<lparr>cities = [], count = 0, cost = 1000000\<rparr>"
  let ?g0 = "\<lparr>threads_in_cond_wait = 0, new_stack = None, new_stack_size = 0, new_stack_top = 0\<rparr>"
  let ?S0 = "\<lparr>stk = [Some \<lparr>elt_tour_p = \<lparr>cities = [0, - 1, - 1, - 1], count = 1, cost = 0\<rparr>,
                 elt_city = 1, elt_cost = 1\<rparr>, None, None, None, None, None], stk_top = 1, stk_size = 6\<rparr>"
  let ?S1 = "\<lparr>stk = [Some \<lparr>elt_tour_p = \<lparr>cities = [0, - 1, - 1, - 1], count = 1, cost = 0\<rparr>,
                 elt_city = 2, elt_cost = 2\<rparr>, None, None, None, None, None], stk_top = 1, stk_size = 6\<rparr>"
  let ?S0' = "\<lparr>stk = [Some \<lparr>elt_tour_p = \<lparr>cities = [0, 1, - 1], count = 2, cost = 1\<rparr>,
                 elt_city = 2, elt_cost = 4\<rparr>, None, None, None, None, None], stk_top = 1, stk_size = 6\<rparr>"
  let ?view = "\<lparr>seen_waiting = 0, seen_mailbox_empty = True, trylock_ok = True\<rparr>"
  let ?i = "\<lparr>w_pc = At_start, w_stack = \<lparr>stk = [], stk_top = 0, stk_size = 0\<rparr>, w_local_best = ?l0\<rparr>"
  let ?w1 = "\<lparr>w_pc = At_loop, w_stack = ?S1, w_local_best = ?l0\<rparr>"
  let ?a = "\<lparr>w_pc = At_loop, w_stack = ?S0, w_local_best = ?l0\<rparr>"
  let ?c = "\<lparr>w_pc = In_body, w_stack = ?S0, w_local_best = ?l0\<rparr>"
  let ?d = "\<lparr>w_pc = At_loop, w_stack = ?S0', w_local_best = ?l0\<rparr>"
  let ?e = "\<lparr>w_pc = In_body, w_stack = ?S0', w_local_best = ?l0\<rparr>"
  have i: "initial_system 3 2 = \<lparr>sys_best = ?b0, sys_globals = ?g0, sys_workers = [?i, ?i]\<rparr>"
    by (simp add: initial_system_def initial_best_tour_def Initialize_tour_def NO_CITY_def INFINITY_def
        initial_globals_def initial_worker_def initial_local_best_def numeral_eq_Suc)
  have r0: "reachable 3 2 three_cities garbage_0 \<lparr>sys_best = ?b0, sys_globals = ?g0, sys_workers = [?i, ?i]\<rparr>"
    using reachable.initially[of 3 2 three_cities garbage_0] i by simp
  have "worker_step 3 2 three_cities garbage_0 1 (?b0, ?g0, [?i, ?i] ! 1) No_wake
          (?b0, ?g0, \<lparr>w_pc = At_loop, w_stack = initial_stack 3 2 three_cities garbage_0 (int 1),
                       w_local_best = initial_local_best\<rparr>)"
    by (rule worker_step.starts) simp
  then have "worker_step 3 2 three_cities garbage_0 1 (?b0, ?g0, [?i, ?i] ! 1) No_wake (?b0, ?g0, ?w1)"
    by (simp add: initial_stacks_three_cities initial_local_best_def INFINITY_def)
  from quiet_step[OF _ this]
  have "step 3 2 three_cities garbage_0 \<lparr>sys_best = ?b0, sys_globals = ?g0, sys_workers = [?i, ?i]\<rparr>
          \<lparr>sys_best = ?b0, sys_globals = ?g0, sys_workers = [?i, ?w1]\<rparr>" by simp
  then have r1: "reachable 3 2 three_cities garbage_0 \<lparr>sys_best = ?b0, sys_globals = ?g0, sys_workers = [?i, ?w1]\<rparr>"
    using reachable.after_step[OF r0] by blast
  have "worker_step 3 2 three_cities garbage_0 0 (?b0, ?g0, [?i, ?w1] ! 0) No_wake
          (?b0, ?g0, \<lparr>w_pc = At_loop, w_stack = initial_stack 3 2 three_cities garbage_0 (int 0),
                       w_local_best = initial_local_best\<rparr>)"
    by (rule worker_step.starts) simp
  then have "worker_step 3 2 three_cities garbage_0 0 (?b0, ?g0, [?i, ?w1] ! 0) No_wake (?b0, ?g0, ?a)"
    by (simp add: initial_stacks_three_cities initial_local_best_def INFINITY_def)
  from quiet_step[OF _ this]
  have "step 3 2 three_cities garbage_0 \<lparr>sys_best = ?b0, sys_globals = ?g0, sys_workers = [?i, ?w1]\<rparr>
          \<lparr>sys_best = ?b0, sys_globals = ?g0, sys_workers = [?a, ?w1]\<rparr>" by simp
  then have r2: "reachable 3 2 three_cities garbage_0 \<lparr>sys_best = ?b0, sys_globals = ?g0, sys_workers = [?a, ?w1]\<rparr>"
    using reachable.after_step[OF r1] by blast
  have "Terminated_entry 2 ?view ?g0 (w_stack ([?a, ?w1] ! 0)) = Returned 0 No_wake ?g0 ?S0"
    by (simp add: Terminated_entry_def Empty_def)
  then have "worker_step 3 2 three_cities garbage_0 0 (?b0, ?g0, [?a, ?w1] ! 0) No_wake
               (?b0, ?g0, ([?a, ?w1] ! 0)\<lparr>w_pc := (if (0::int) = 0 then In_body else Done), w_stack := ?S0\<rparr>)"
    by (intro worker_step.returns) simp_all
  then have "worker_step 3 2 three_cities garbage_0 0 (?b0, ?g0, [?a, ?w1] ! 0) No_wake (?b0, ?g0, ?c)" by simp
  from quiet_step[OF _ this]
  have "step 3 2 three_cities garbage_0 \<lparr>sys_best = ?b0, sys_globals = ?g0, sys_workers = [?a, ?w1]\<rparr>
          \<lparr>sys_best = ?b0, sys_globals = ?g0, sys_workers = [?c, ?w1]\<rparr>" by simp
  then have r3: "reachable 3 2 three_cities garbage_0 \<lparr>sys_best = ?b0, sys_globals = ?g0, sys_workers = [?c, ?w1]\<rparr>"
    using reachable.after_step[OF r2] by blast
  have "Search_body 3 three_cities (?b0, w_local_best ([?c, ?w1] ! 0), w_stack ([?c, ?w1] ! 0))
          = Some (?b0, ?l0, ?S0')"
    by (simp add: Search_body_def Pop_def Let_def push_nbrs.simps Feasible_def Visited_def
        Visited_from.simps Push_def Dup_tour_def three_cities_def mat_at_def upt_rec numeral_eq_Suc
        int_add_def INT_MIN_def)
  then have "worker_step 3 2 three_cities garbage_0 0 (?b0, ?g0, [?c, ?w1] ! 0) No_wake
               (?b0, ?g0, ([?c, ?w1] ! 0)\<lparr>w_pc := At_loop, w_local_best := ?l0, w_stack := ?S0'\<rparr>)"
    by (intro worker_step.iterates) simp_all
  then have "worker_step 3 2 three_cities garbage_0 0 (?b0, ?g0, [?c, ?w1] ! 0) No_wake (?b0, ?g0, ?d)" by simp
  from quiet_step[OF _ this]
  have "step 3 2 three_cities garbage_0 \<lparr>sys_best = ?b0, sys_globals = ?g0, sys_workers = [?c, ?w1]\<rparr>
          \<lparr>sys_best = ?b0, sys_globals = ?g0, sys_workers = [?d, ?w1]\<rparr>" by simp
  then have r4: "reachable 3 2 three_cities garbage_0 \<lparr>sys_best = ?b0, sys_globals = ?g0, sys_workers = [?d, ?w1]\<rparr>"
    using reachable.after_step[OF r3] by blast
  have "Terminated_entry 2 ?view ?g0 (w_stack ([?d, ?w1] ! 0)) = Returned 0 No_wake ?g0 ?S0'"
    by (simp add: Terminated_entry_def Empty_def)
  then have "worker_step 3 2 three_cities garbage_0 0 (?b0, ?g0, [?d, ?w1] ! 0) No_wake
               (?b0, ?g0, ([?d, ?w1] ! 0)\<lparr>w_pc := (if (0::int) = 0 then In_body else Done), w_stack := ?S0'\<rparr>)"
    by (intro worker_step.returns) simp_all
  then have "worker_step 3 2 three_cities garbage_0 0 (?b0, ?g0, [?d, ?w1] ! 0) No_wake (?b0, ?g0, ?e)" by simp
  from quiet_step[OF _ this]
  have "step 3 2 three_cities garbage_0 \<lparr>sys_best = ?b0, sys_globals = ?g0, sys_workers = [?d, ?w1]\<rparr>
          \<lparr>sys_best = ?b0, sys_globals = ?g0, sys_workers = [?e, ?w1]\<rparr>" by simp
  then have "reachable 3 2 three_cities garbage_0 \<lparr>sys_best = ?b0, sys_globals = ?g0, sys_workers = [?e, ?w1]\<rparr>"
    using reachable.after_step[OF r4] by blast
  then show ?thesis by (simp add: before_commit_def)
qed

lemma commit_step: "step 3 2 three_cities garbage_0 before_commit after_commit"
proof -
  let ?wk = "sys_workers before_commit ! 0"
  have "Search_body 3 three_cities (sys_best before_commit, w_local_best ?wk, w_stack ?wk)
          = Some (sys_best after_commit, w_local_best (sys_workers after_commit ! 0),
                  w_stack (sys_workers after_commit ! 0))"
    by (simp add: before_commit_def after_commit_def Search_body_def Pop_def Let_def
        Check_best_tour_cases copy_cities.simps three_cities_def mat_at_def int_add_def INT_MIN_def)
  then have "worker_step 3 2 three_cities garbage_0 0
               (sys_best before_commit, sys_globals before_commit, ?wk) No_wake
               (sys_best after_commit, sys_globals before_commit,
                ?wk\<lparr>w_pc := At_loop, w_local_best := w_local_best (sys_workers after_commit ! 0),
                     w_stack := w_stack (sys_workers after_commit ! 0)\<rparr>)"
    by (intro worker_step.iterates) (simp_all add: before_commit_def)
  from quiet_step[OF _ this]
  have "step 3 2 three_cities garbage_0
          \<lparr>sys_best = sys_best before_commit, sys_globals = sys_globals before_commit,
            sys_workers = sys_workers before_commit\<rparr>
          \<lparr>sys_best = sys_best after_commit, sys_globals = sys_globals before_commit,
            sys_workers = (sys_workers before_commit)[0 := ?wk\<lparr>w_pc := At_loop,
               w_local_best := w_local_best (sys_workers after_commit ! 0),
               w_stack := w_stack (sys_workers after_commit ! 0)\<rparr>]\<rparr>"
    by (simp add: before_commit_def)
  then show ?thesis by (simp add: before_commit_def after_commit_def)
qed

section \<open>A wake-up without a donation\<close>

lemma stranded_reachable: "reachable 3 2 three_cities garbage_0 stranded"
proof -
  let ?b = "\<lparr>cities = [0, 1, 2, 0], count = 4, cost = 10\<rparr>"
  let ?g0 = "\<lparr>threads_in_cond_wait = 0, new_stack = None, new_stack_size = 0, new_stack_top = 0\<rparr>"
  let ?g1 = "\<lparr>threads_in_cond_wait = 1, new_stack = None, new_stack_size = 0, new_stack_top = 0\<rparr>"
  let ?l = "\<lparr>cities = [], count = 0, cost = 10\<rparr>"
  let ?s = "\<lparr>stk = [None, None, None, None, None, None], stk_top = 0, stk_size = 6\<rparr>"
  let ?w1 = "\<lparr>w_pc = At_loop,
          w_stack = \<lparr>stk = [Some \<lparr>elt_tour_p = \<lparr>cities = [0, - 1, - 1, - 1], count = 1, cost = 0\<rparr>,
                                elt_city = 2, elt_cost = 2\<rparr>,
                          None, None, None, None, None], stk_top = 1, stk_size = 6\<rparr>,
          w_local_best = \<lparr>cities = [], count = 0, cost = 1000000\<rparr>\<rparr>"
  let ?a = "\<lparr>w_pc = At_loop, w_stack = ?s, w_local_best = ?l\<rparr>"
  let ?c = "\<lparr>w_pc = Waiting, w_stack = ?s, w_local_best = ?l\<rparr>"
  let ?d = "\<lparr>w_pc = Woken, w_stack = ?s, w_local_best = ?l\<rparr>"
  let ?e = "\<lparr>w_pc = In_body, w_stack = \<lparr>stk = [], stk_top = 0, stk_size = 0\<rparr>, w_local_best = ?l\<rparr>"
  let ?view = "\<lparr>seen_waiting = 0, seen_mailbox_empty = True, trylock_ok = True\<rparr>"
  have r0: "reachable 3 2 three_cities garbage_0 \<lparr>sys_best = ?b, sys_globals = ?g0, sys_workers = [?a, ?w1]\<rparr>"
    using reachable.after_step[OF before_commit_reachable commit_step] by (simp add: after_commit_def)
  have "Terminated_entry 2 ?view ?g0 (w_stack ([?a, ?w1] ! 0)) = Blocked ?g1"
    by (simp add: Terminated_entry_def Empty_def)
  then have "worker_step 3 2 three_cities garbage_0 0 (?b, ?g0, [?a, ?w1] ! 0) No_wake
               (?b, ?g1, ([?a, ?w1] ! 0)\<lparr>w_pc := Waiting\<rparr>)"
    by (intro worker_step.blocks) simp_all
  then have "worker_step 3 2 three_cities garbage_0 0 (?b, ?g0, [?a, ?w1] ! 0) No_wake (?b, ?g1, ?c)" by simp
  from quiet_step[OF _ this]
  have "step 3 2 three_cities garbage_0 \<lparr>sys_best = ?b, sys_globals = ?g0, sys_workers = [?a, ?w1]\<rparr>
          \<lparr>sys_best = ?b, sys_globals = ?g1, sys_workers = [?c, ?w1]\<rparr>" by simp
  then have r1: "reachable 3 2 three_cities garbage_0 \<lparr>sys_best = ?b, sys_globals = ?g1, sys_workers = [?c, ?w1]\<rparr>"
    using reachable.after_step[OF r0] by blast
  have "step 3 2 three_cities garbage_0 \<lparr>sys_best = ?b, sys_globals = ?g1, sys_workers = [?c, ?w1]\<rparr>
          (\<lparr>sys_best = ?b, sys_globals = ?g1, sys_workers = [?c, ?w1]\<rparr>
             \<lparr>sys_workers := (sys_workers \<lparr>sys_best = ?b, sys_globals = ?g1, sys_workers = [?c, ?w1]\<rparr>)
                [0 := wake_up (sys_workers \<lparr>sys_best = ?b, sys_globals = ?g1, sys_workers = [?c, ?w1]\<rparr> ! 0)]\<rparr>)"
    by (rule step.spurious) simp_all
  then have "step 3 2 three_cities garbage_0 \<lparr>sys_best = ?b, sys_globals = ?g1, sys_workers = [?c, ?w1]\<rparr>
          \<lparr>sys_best = ?b, sys_globals = ?g1, sys_workers = [?d, ?w1]\<rparr>"
    by (simp add: wake_up_def)
  then have r2: "reachable 3 2 three_cities garbage_0 \<lparr>sys_best = ?b, sys_globals = ?g1, sys_workers = [?d, ?w1]\<rparr>"
    using reachable.after_step[OF r1] by blast
  have "Terminated_wake 2 ?g1 (w_stack ([?d, ?w1] ! 0)) = (0, ?g0, \<lparr>stk = [], stk_top = 0, stk_size = 0\<rparr>)"
    by (simp add: Terminated_wake_def)
  then have "worker_step 3 2 three_cities garbage_0 0 (?b, ?g1, [?d, ?w1] ! 0) No_wake
               (?b, ?g0, ([?d, ?w1] ! 0)\<lparr>w_pc := (if (0::int) = 0 then In_body else Done),
                  w_stack := \<lparr>stk = [], stk_top = 0, stk_size = 0\<rparr>\<rparr>)"
    by (intro worker_step.resumes) simp_all
  then have "worker_step 3 2 three_cities garbage_0 0 (?b, ?g1, [?d, ?w1] ! 0) No_wake (?b, ?g0, ?e)" by simp
  from quiet_step[OF _ this]
  have "step 3 2 three_cities garbage_0 \<lparr>sys_best = ?b, sys_globals = ?g1, sys_workers = [?d, ?w1]\<rparr>
          \<lparr>sys_best = ?b, sys_globals = ?g0, sys_workers = [?e, ?w1]\<rparr>" by simp
  then have "reachable 3 2 three_cities garbage_0 \<lparr>sys_best = ?b, sys_globals = ?g0, sys_workers = [?e, ?w1]\<rparr>"
    using reachable.after_step[OF r2] by blast
  then show ?thesis by (simp add: stranded_def)
qed

text \<open>
  C10, at a wake-up without a donation. Three cities, two threads. Worker 0 has finished
  its own frames while worker 1 has not popped its first one; worker 0 calls
  \<^verbatim>\<open>Terminated\<close> with an empty stack, \<^verbatim>\<open>threads_in_cond_wait\<close> is 0 and not
  \<^verbatim>\<open>thread_count - 1\<close>, so it waits. \<^verbatim>\<open>pthread_cond_wait\<close> returns although nobody has
  donated a stack (a spurious wake-up). \<^verbatim>\<open>threads_in_cond_wait\<close> is 1, below
  \<^verbatim>\<open>thread_count\<close>, so \<^verbatim>\<open>Terminated\<close> installs the \<^verbatim>\<open>NULL\<close> mailbox as the stack with
  \<^verbatim>\<open>top = new_stack_top = 0\<close> and returns 0: worker 0 is in the loop body with \<^verbatim>\<open>top = 0\<close>,
  and its \<^verbatim>\<open>Pop\<close> reads below the bottom of the stack.
\<close>

theorem Terminated_returns_0_with_empty_stack:
  "reachable 3 2 three_cities garbage_0 stranded \<and>
   w_pc (sys_workers stranded ! 0) = In_body \<and>
   stk_top (w_stack (sys_workers stranded ! 0)) = 0 \<and>
   stk (w_stack (sys_workers stranded ! 0)) = [] \<and>
   Pop (w_stack (sys_workers stranded ! 0)) = None"
  using stranded_reachable by (simp add: stranded_def Pop_def)

section \<open>The best tour when all workers have returned\<close>

lemma three_final_reachable: "reachable 3 2 three_cities garbage_0 three_final"
proof -
  let ?B = "\<lparr>cities = [0, 1, 2, 0], count = 4, cost = 10\<rparr>"
  let ?g0 = "\<lparr>threads_in_cond_wait = 0, new_stack = None, new_stack_size = 0, new_stack_top = 0\<rparr>"
  let ?g1 = "\<lparr>threads_in_cond_wait = 1, new_stack = None, new_stack_size = 0, new_stack_top = 0\<rparr>"
  let ?g2 = "\<lparr>threads_in_cond_wait = 2, new_stack = None, new_stack_size = 0, new_stack_top = 0\<rparr>"
  let ?l = "\<lparr>cities = [], count = 0, cost = 10\<rparr>"
  let ?li = "\<lparr>cities = [], count = 0, cost = 1000000\<rparr>"
  let ?E = "\<lparr>stk = [None, None, None, None, None, None], stk_top = 0, stk_size = 6\<rparr>"
  let ?S1 = "\<lparr>stk = [Some \<lparr>elt_tour_p = \<lparr>cities = [0, - 1, - 1, - 1], count = 1, cost = 0\<rparr>,
                 elt_city = 2, elt_cost = 2\<rparr>, None, None, None, None, None], stk_top = 1, stk_size = 6\<rparr>"
  let ?S2 = "\<lparr>stk = [Some \<lparr>elt_tour_p = \<lparr>cities = [0, 2, - 1], count = 2, cost = 2\<rparr>,
                 elt_city = 1, elt_cost = 6\<rparr>, None, None, None, None, None], stk_top = 1, stk_size = 6\<rparr>"
  let ?view = "\<lparr>seen_waiting = 0, seen_mailbox_empty = True, trylock_ok = True\<rparr>"
  let ?w0 = "\<lparr>w_pc = At_loop, w_stack = ?E, w_local_best = ?l\<rparr>"
  let ?w0d = "\<lparr>w_pc = Done, w_stack = ?E, w_local_best = ?l\<rparr>"
  let ?a = "\<lparr>w_pc = At_loop, w_stack = ?S1, w_local_best = ?li\<rparr>"
  let ?b = "\<lparr>w_pc = In_body, w_stack = ?S1, w_local_best = ?li\<rparr>"
  let ?c = "\<lparr>w_pc = At_loop, w_stack = ?S2, w_local_best = ?li\<rparr>"
  let ?d = "\<lparr>w_pc = In_body, w_stack = ?S2, w_local_best = ?li\<rparr>"
  let ?e = "\<lparr>w_pc = At_loop, w_stack = ?E, w_local_best = ?li\<rparr>"
  let ?f = "\<lparr>w_pc = Waiting, w_stack = ?E, w_local_best = ?li\<rparr>"
  let ?h = "\<lparr>w_pc = Woken, w_stack = ?E, w_local_best = ?li\<rparr>"
  let ?k = "\<lparr>w_pc = Done, w_stack = ?E, w_local_best = ?li\<rparr>"
  have r0: "reachable 3 2 three_cities garbage_0 \<lparr>sys_best = ?B, sys_globals = ?g0, sys_workers = [?w0, ?a]\<rparr>"
    using reachable.after_step[OF before_commit_reachable commit_step] by (simp add: after_commit_def)
  have "Terminated_entry 2 ?view ?g0 (w_stack ([?w0, ?a] ! 1)) = Returned 0 No_wake ?g0 ?S1"
    by (simp add: Terminated_entry_def Empty_def)
  then have "worker_step 3 2 three_cities garbage_0 1 (?B, ?g0, [?w0, ?a] ! 1) No_wake
               (?B, ?g0, ([?w0, ?a] ! 1)\<lparr>w_pc := (if (0::int) = 0 then In_body else Done), w_stack := ?S1\<rparr>)"
    by (intro worker_step.returns) simp_all
  then have "worker_step 3 2 three_cities garbage_0 1 (?B, ?g0, [?w0, ?a] ! 1) No_wake (?B, ?g0, ?b)" by simp
  from quiet_step[OF _ this]
  have "step 3 2 three_cities garbage_0 \<lparr>sys_best = ?B, sys_globals = ?g0, sys_workers = [?w0, ?a]\<rparr>
          \<lparr>sys_best = ?B, sys_globals = ?g0, sys_workers = [?w0, ?b]\<rparr>" by simp
  then have r1: "reachable 3 2 three_cities garbage_0 \<lparr>sys_best = ?B, sys_globals = ?g0, sys_workers = [?w0, ?b]\<rparr>"
    using reachable.after_step[OF r0] by blast
  have "Search_body 3 three_cities (?B, w_local_best ([?w0, ?b] ! 1), w_stack ([?w0, ?b] ! 1))
          = Some (?B, ?li, ?S2)"
    by (simp add: Search_body_def Pop_def Let_def push_nbrs.simps Feasible_def Visited_def
        Visited_from.simps Push_def Dup_tour_def three_cities_def mat_at_def upt_rec numeral_eq_Suc
        int_add_def INT_MIN_def)
  then have "worker_step 3 2 three_cities garbage_0 1 (?B, ?g0, [?w0, ?b] ! 1) No_wake
               (?B, ?g0, ([?w0, ?b] ! 1)\<lparr>w_pc := At_loop, w_local_best := ?li, w_stack := ?S2\<rparr>)"
    by (intro worker_step.iterates) simp_all
  then have "worker_step 3 2 three_cities garbage_0 1 (?B, ?g0, [?w0, ?b] ! 1) No_wake (?B, ?g0, ?c)" by simp
  from quiet_step[OF _ this]
  have "step 3 2 three_cities garbage_0 \<lparr>sys_best = ?B, sys_globals = ?g0, sys_workers = [?w0, ?b]\<rparr>
          \<lparr>sys_best = ?B, sys_globals = ?g0, sys_workers = [?w0, ?c]\<rparr>" by simp
  then have r2: "reachable 3 2 three_cities garbage_0 \<lparr>sys_best = ?B, sys_globals = ?g0, sys_workers = [?w0, ?c]\<rparr>"
    using reachable.after_step[OF r1] by blast
  have "Terminated_entry 2 ?view ?g0 (w_stack ([?w0, ?c] ! 1)) = Returned 0 No_wake ?g0 ?S2"
    by (simp add: Terminated_entry_def Empty_def)
  then have "worker_step 3 2 three_cities garbage_0 1 (?B, ?g0, [?w0, ?c] ! 1) No_wake
               (?B, ?g0, ([?w0, ?c] ! 1)\<lparr>w_pc := (if (0::int) = 0 then In_body else Done), w_stack := ?S2\<rparr>)"
    by (intro worker_step.returns) simp_all
  then have "worker_step 3 2 three_cities garbage_0 1 (?B, ?g0, [?w0, ?c] ! 1) No_wake (?B, ?g0, ?d)" by simp
  from quiet_step[OF _ this]
  have "step 3 2 three_cities garbage_0 \<lparr>sys_best = ?B, sys_globals = ?g0, sys_workers = [?w0, ?c]\<rparr>
          \<lparr>sys_best = ?B, sys_globals = ?g0, sys_workers = [?w0, ?d]\<rparr>" by simp
  then have r3: "reachable 3 2 three_cities garbage_0 \<lparr>sys_best = ?B, sys_globals = ?g0, sys_workers = [?w0, ?d]\<rparr>"
    using reachable.after_step[OF r2] by blast
  have "Search_body 3 three_cities (?B, w_local_best ([?w0, ?d] ! 1), w_stack ([?w0, ?d] ! 1))
          = Some (?B, ?li, ?E)"
    by (simp add: Search_body_def Pop_def Let_def Check_best_tour_cases three_cities_def mat_at_def
        int_add_def INT_MIN_def)
  then have "worker_step 3 2 three_cities garbage_0 1 (?B, ?g0, [?w0, ?d] ! 1) No_wake
               (?B, ?g0, ([?w0, ?d] ! 1)\<lparr>w_pc := At_loop, w_local_best := ?li, w_stack := ?E\<rparr>)"
    by (intro worker_step.iterates) simp_all
  then have "worker_step 3 2 three_cities garbage_0 1 (?B, ?g0, [?w0, ?d] ! 1) No_wake (?B, ?g0, ?e)" by simp
  from quiet_step[OF _ this]
  have "step 3 2 three_cities garbage_0 \<lparr>sys_best = ?B, sys_globals = ?g0, sys_workers = [?w0, ?d]\<rparr>
          \<lparr>sys_best = ?B, sys_globals = ?g0, sys_workers = [?w0, ?e]\<rparr>" by simp
  then have r4: "reachable 3 2 three_cities garbage_0 \<lparr>sys_best = ?B, sys_globals = ?g0, sys_workers = [?w0, ?e]\<rparr>"
    using reachable.after_step[OF r3] by blast
  have "Terminated_entry 2 ?view ?g0 (w_stack ([?w0, ?e] ! 1)) = Blocked ?g1"
    by (simp add: Terminated_entry_def Empty_def)
  then have "worker_step 3 2 three_cities garbage_0 1 (?B, ?g0, [?w0, ?e] ! 1) No_wake
               (?B, ?g1, ([?w0, ?e] ! 1)\<lparr>w_pc := Waiting\<rparr>)"
    by (intro worker_step.blocks) simp_all
  then have "worker_step 3 2 three_cities garbage_0 1 (?B, ?g0, [?w0, ?e] ! 1) No_wake (?B, ?g1, ?f)" by simp
  from quiet_step[OF _ this]
  have "step 3 2 three_cities garbage_0 \<lparr>sys_best = ?B, sys_globals = ?g0, sys_workers = [?w0, ?e]\<rparr>
          \<lparr>sys_best = ?B, sys_globals = ?g1, sys_workers = [?w0, ?f]\<rparr>" by simp
  then have r5: "reachable 3 2 three_cities garbage_0 \<lparr>sys_best = ?B, sys_globals = ?g1, sys_workers = [?w0, ?f]\<rparr>"
    using reachable.after_step[OF r4] by blast
  have "Terminated_entry 2 ?view ?g1 (w_stack ([?w0, ?f] ! 0)) = Returned 1 Broadcast ?g2 ?E"
    by (simp add: Terminated_entry_def Empty_def)
  then have "worker_step 3 2 three_cities garbage_0 0 (?B, ?g1, [?w0, ?f] ! 0) Broadcast
               (?B, ?g2, ([?w0, ?f] ! 0)\<lparr>w_pc := (if (1::int) = 0 then In_body else Done), w_stack := ?E\<rparr>)"
    by (intro worker_step.returns) simp_all
  then have ws: "worker_step 3 2 three_cities garbage_0 0
               (sys_best \<lparr>sys_best = ?B, sys_globals = ?g1, sys_workers = [?w0, ?f]\<rparr>,
                sys_globals \<lparr>sys_best = ?B, sys_globals = ?g1, sys_workers = [?w0, ?f]\<rparr>,
                sys_workers \<lparr>sys_best = ?B, sys_globals = ?g1, sys_workers = [?w0, ?f]\<rparr> ! 0) Broadcast
               (?B, ?g2, ?w0d)" by simp
  have "woken_by Broadcast ((sys_workers \<lparr>sys_best = ?B, sys_globals = ?g1, sys_workers = [?w0, ?f]\<rparr>)[0 := ?w0d])
           (map wake_up ((sys_workers \<lparr>sys_best = ?B, sys_globals = ?g1, sys_workers = [?w0, ?f]\<rparr>)[0 := ?w0d]))"
    by (rule woken_by.broadcast)
  then have wb: "woken_by Broadcast ((sys_workers \<lparr>sys_best = ?B, sys_globals = ?g1, sys_workers = [?w0, ?f]\<rparr>)[0 := ?w0d])
           [?w0d, ?h]"
    by (simp add: wake_up_def)
  have "step 3 2 three_cities garbage_0 \<lparr>sys_best = ?B, sys_globals = ?g1, sys_workers = [?w0, ?f]\<rparr>
          \<lparr>sys_best = ?B, sys_globals = ?g2, sys_workers = [?w0d, ?h]\<rparr>"
    by (rule step.of_worker[OF _ ws wb]) simp
  then have r6: "reachable 3 2 three_cities garbage_0 \<lparr>sys_best = ?B, sys_globals = ?g2, sys_workers = [?w0d, ?h]\<rparr>"
    using reachable.after_step[OF r5] by blast
  have "Terminated_wake 2 ?g2 (w_stack ([?w0d, ?h] ! 1)) = (1, ?g2, ?E)"
    by (simp add: Terminated_wake_def)
  then have "worker_step 3 2 three_cities garbage_0 1 (?B, ?g2, [?w0d, ?h] ! 1) No_wake
               (?B, ?g2, ([?w0d, ?h] ! 1)\<lparr>w_pc := (if (1::int) = 0 then In_body else Done), w_stack := ?E\<rparr>)"
    by (intro worker_step.resumes) simp_all
  then have "worker_step 3 2 three_cities garbage_0 1 (?B, ?g2, [?w0d, ?h] ! 1) No_wake (?B, ?g2, ?k)" by simp
  from quiet_step[OF _ this]
  have "step 3 2 three_cities garbage_0 \<lparr>sys_best = ?B, sys_globals = ?g2, sys_workers = [?w0d, ?h]\<rparr>
          \<lparr>sys_best = ?B, sys_globals = ?g2, sys_workers = [?w0d, ?k]\<rparr>" by simp
  then have "reachable 3 2 three_cities garbage_0 \<lparr>sys_best = ?B, sys_globals = ?g2, sys_workers = [?w0d, ?k]\<rparr>"
    using reachable.after_step[OF r6] by blast
  then show ?thesis by (simp add: three_final_def)
qed

lemma complete_tours_three: "complete_tour 3 [0, 1, 2, 0]" "complete_tour 3 [0, 2, 1, 0]"
proof -
  have "{0..<3::int} = {0, 1, 2}" by auto
  then show "complete_tour 3 [0, 1, 2, 0]" "complete_tour 3 [0, 2, 1, 0]"
    by (auto simp: complete_tour_def numeral_3_eq_3)
qed

lemma complete_tour_2:
  assumes "complete_tour 2 T"
  shows "T = [0, 1, 0]"
proof -
  have T: "length T = 3" "T ! 0 = 0" "T ! 2 = 0" "set (take 2 T) = {0..<2}"
    using assms by (simp_all add: complete_tour_def)
  obtain a b c where abc: "T = [a, b, c]"
    using T(1) by (metis length_0_conv length_Suc_conv numeral_3_eq_3)
  have "{0..<2::int} = {0, 1}" by auto
  then have "{a, b} = {0, 1}" using T(4) abc by (simp add: numeral_2_eq_2)
  moreover have "a = 0" "c = 0" using T(2,3) abc by simp_all
  ultimately have "b = 1" by (auto simp: doubleton_eq_iff)
  then show ?thesis using abc \<open>a = 0\<close> \<open>c = 0\<close> by simp
qed

text \<open>
  C1, for the inputs whose weights fit, and with the cost fields of the first stack
  elements reading 0 when they are allocated. For \<open>n \<ge> 2\<close> cities, \<open>1 \<le> thread_count < n\<close>
  and an \<open>n\<close> by \<open>n\<close> matrix without negative entries in which \<open>n\<close> times every entry is at
  most \<^verbatim>\<open>INT_MAX\<close>: in every state the threads can reach, under any interleaving of their
  steps, once all workers have returned, either some complete tour costs less than
  1000000, and then \<^verbatim>\<open>best_tour\<close> has count \<open>n + 1\<close>, its cities are a complete tour from
  city 0 back to city 0 through every other city once, its cost is the sum of the matrix
  entries along the tour, and no complete tour costs less; or no complete tour costs less
  than 1000000, and then \<^verbatim>\<open>best_tour\<close> is as \<^verbatim>\<open>main\<close> initialised it.
\<close>

theorem best_tour_optimal:
  assumes "2 \<le> n" and "1 \<le> thread_count" and "thread_count < n"
    and "length mat = nat (n * n)" and "list_all (\<lambda>x. 0 \<le> x) mat" and "weights_fit n mat"
    and "reachable n thread_count mat garbage_0 \<sigma>" and "all_done \<sigma>"
  shows "((\<exists>T. complete_tour n T \<and> path_cost n mat T < INFINITY) \<longrightarrow>
            count (sys_best \<sigma>) = n + 1 \<and> complete_tour n (cities (sys_best \<sigma>)) \<and>
            cost (sys_best \<sigma>) = path_cost n mat (cities (sys_best \<sigma>)) \<and>
            (\<forall>T. complete_tour n T \<longrightarrow> cost (sys_best \<sigma>) \<le> path_cost n mat T)) \<and>
         ((\<forall>T. complete_tour n T \<longrightarrow> INFINITY \<le> path_cost n mat T) \<longrightarrow>
            sys_best \<sigma> = initial_best_tour n)"
proof -
  have vi: "valid_input n thread_count mat"
    using assms(1-6) by (simp add: valid_input_def valid_matrix_def)
  have inv: "Inv n thread_count mat \<sigma>" by (rule reachable_Inv[OF vi assms(7)])
  have opt: "cost (sys_best \<sigma>) \<le> path_cost n mat T" if "complete_tour n T" for T
    by (rule Inv_all_done[OF vi inv assms(8) that])
  have bo: "best_ok n mat (sys_best \<sigma>)" using inv unfolding Inv_def by blast
  have "count (sys_best \<sigma>) = n + 1 \<and> complete_tour n (cities (sys_best \<sigma>)) \<and>
         cost (sys_best \<sigma>) = path_cost n mat (cities (sys_best \<sigma>))"
    if "complete_tour n T" "path_cost n mat T < INFINITY" for T
  proof -
    have "cost (sys_best \<sigma>) < INFINITY" using opt[OF that(1)] that(2) by simp
    then have "sys_best \<sigma> \<noteq> initial_best_tour n" by (auto simp: initial_best_tour_def)
    then show ?thesis using bo unfolding best_ok_def by blast
  qed
  moreover have "sys_best \<sigma> = initial_best_tour n"
    if "\<forall>T. complete_tour n T \<longrightarrow> INFINITY \<le> path_cost n mat T"
  proof (rule ccontr)
    assume "sys_best \<sigma> \<noteq> initial_best_tour n"
    then have "complete_tour n (cities (sys_best \<sigma>))"
        "cost (sys_best \<sigma>) = path_cost n mat (cities (sys_best \<sigma>))" "cost (sys_best \<sigma>) < INFINITY"
      using bo unfolding best_ok_def by blast+
    then show False using that by fastforce
  qed
  ultimately show ?thesis using opt by blast
qed

theorem best_tour_optimal_witness:
  "length three_cities = nat (3 * 3) \<and> list_all (\<lambda>x. 0 \<le> x) three_cities \<and>
   weights_fit 3 three_cities \<and>
   reachable 3 2 three_cities garbage_0 three_final \<and> all_done three_final \<and>
   complete_tour 3 [0, 1, 2, 0] \<and> complete_tour 3 [0, 2, 1, 0] \<and>
   path_cost 3 three_cities [0, 1, 2, 0] = 10 \<and> path_cost 3 three_cities [0, 2, 1, 0] = 11 \<and>
   cities (sys_best three_final) = [0, 1, 2, 0] \<and> count (sys_best three_final) = 4 \<and>
   complete_tour 3 (cities (sys_best three_final)) \<and>
   cost (sys_best three_final) = path_cost 3 three_cities (cities (sys_best three_final)) \<and>
   cost (sys_best three_final) \<le> path_cost 3 three_cities [0, 1, 2, 0] \<and>
   cost (sys_best three_final) \<le> path_cost 3 three_cities [0, 2, 1, 0] \<and>
   length dear_matrix = nat (2 * 2) \<and> list_all (\<lambda>x. 0 \<le> x) dear_matrix \<and>
   weights_fit 2 dear_matrix \<and>
   reachable 2 1 dear_matrix garbage_0 dear_final \<and> all_done dear_final \<and>
   sys_best dear_final = initial_best_tour 2"
proof -
  have h: "length three_cities = nat (3 * 3)" "list_all (\<lambda>x. 0 \<le> x) three_cities"
      "weights_fit 3 three_cities"
    by (simp_all add: weights_fit_def three_cities_def INT_MAX_def)
  have h3: "all_done three_final" by (simp add: all_done_def three_final_def)
  have p: "path_cost 3 three_cities [0, 1, 2, 0] = 10" "path_cost 3 three_cities [0, 2, 1, 0] = 11"
    by (simp_all add: three_cities_def mat_at_def)
  have ex: "\<exists>T. complete_tour 3 T \<and> path_cost 3 three_cities T < INFINITY"
    using complete_tours_three(1) p(1) by (intro exI[of _ "[0, 1, 2, 0]"]) (simp add: INFINITY_def)
  have n: "(2::int) \<le> 3" "(1::int) \<le> 2" "(2::int) < 3" by simp_all
  note T = best_tour_optimal[OF n h three_final_reachable h3]
  have a: "count (sys_best three_final) = 3 + 1" "complete_tour 3 (cities (sys_best three_final))"
      "cost (sys_best three_final) = path_cost 3 three_cities (cities (sys_best three_final))"
      "\<forall>T. complete_tour 3 T \<longrightarrow> cost (sys_best three_final) \<le> path_cost 3 three_cities T"
    using T ex by blast+
  have b: "cost (sys_best three_final) \<le> path_cost 3 three_cities [0, 1, 2, 0]"
      "cost (sys_best three_final) \<le> path_cost 3 three_cities [0, 2, 1, 0]"
    using a(4) complete_tours_three by blast+
  have c: "cities (sys_best three_final) = [0, 1, 2, 0]" by (simp add: three_final_def)
  have k: "length dear_matrix = nat (2 * 2)" "list_all (\<lambda>x. 0 \<le> x) dear_matrix"
      "weights_fit 2 dear_matrix"
    by (simp_all add: weights_fit_def dear_matrix_def INT_MAX_def)
  have k3: "all_done dear_final" by (simp add: all_done_def dear_final_def)
  have "INFINITY \<le> path_cost 2 dear_matrix T" if "complete_tour 2 T" for T
    using complete_tour_2[OF that] by (simp add: dear_matrix_def mat_at_def INFINITY_def)
  moreover have m: "(2::int) \<le> 2" "(1::int) \<le> 1" "(1::int) < 2" by simp_all
  ultimately have d: "sys_best dear_final = initial_best_tour 2"
    using best_tour_optimal[OF m k dear_final_reachable k3] by blast
  show ?thesis
    using h three_final_reachable h3 complete_tours_three p a(1,2,3) b c k dear_final_reachable k3 d
    by simp
qed

text \<open>
  C1 as stated fails in two ways. When no tour costs less than \<^verbatim>\<open>INFINITY\<close>: two cities,
  one thread, the matrix \<open>[[0, 2000000], [0, 0]]\<close>, whose only tour \<open>0, 1, 0\<close> costs 2000000;
  the run ends with all workers returned and \<^verbatim>\<open>best_tour\<close> still holds no city, count 0
  and the cost 1000000. When a sum of weights is not an \<^verbatim>\<open>int\<close>: two cities, one thread,
  the matrix \<open>[[0, 5], [2147483647, 0]]\<close>, without negative entries and with a zero
  diagonal; the run ends with \<^verbatim>\<open>best_tour\<close> holding the tour \<open>0, 1, 0\<close> and the cost
  - 2147483644, and the entries along that tour add up to 2147483652.
\<close>

theorem best_tour_optimal_counterexample:
  "length dear_matrix = nat (2 * 2) \<and> list_all (\<lambda>x. 0 \<le> x) dear_matrix \<and>
   mat_at dear_matrix 0 = 0 \<and> mat_at dear_matrix 3 = 0 \<and>
   reachable 2 1 dear_matrix garbage_0 dear_final \<and> all_done dear_final \<and>
   cities (sys_best dear_final) = [- 1, - 1, - 1] \<and> count (sys_best dear_final) = 0 \<and>
   cost (sys_best dear_final) = 1000000 \<and>
   complete_tour 2 [0, 1, 0] \<and> path_cost 2 dear_matrix [0, 1, 0] = 2000000 \<and>
   length wrap_pair = nat (2 * 2) \<and> list_all (\<lambda>x. 0 \<le> x) wrap_pair \<and>
   mat_at wrap_pair 0 = 0 \<and> mat_at wrap_pair 3 = 0 \<and>
   reachable 2 1 wrap_pair garbage_0 wrap_final \<and> all_done wrap_final \<and>
   cities (sys_best wrap_final) = [0, 1, 0] \<and> cost (sys_best wrap_final) = - 2147483644 \<and>
   path_cost 2 wrap_pair (cities (sys_best wrap_final)) = 2147483652"
proof -
  have "all_done dear_final" "all_done wrap_final"
    by (simp_all add: all_done_def dear_final_def wrap_final_def)
  moreover have "path_cost 2 dear_matrix [0, 1, 0] = 2000000"
    by (simp add: dear_matrix_def mat_at_def)
  moreover have "path_cost 2 wrap_pair (cities (sys_best wrap_final)) = 2147483652"
    by (simp add: wrap_pair_def wrap_final_def mat_at_def)
  moreover have "length wrap_pair = nat (2 * 2)" "list_all (\<lambda>x. 0 \<le> x) wrap_pair"
      "mat_at wrap_pair 0 = 0" "mat_at wrap_pair 3 = 0"
    by (simp_all add: wrap_pair_def mat_at_def)
  moreover have "length dear_matrix = nat (2 * 2)" "list_all (\<lambda>x. 0 \<le> x) dear_matrix"
      "mat_at dear_matrix 0 = 0" "mat_at dear_matrix 3 = 0"
    by (simp_all add: dear_matrix_def mat_at_def)
  ultimately show ?thesis
    using dear_final_reachable wrap_final_reachable complete_tour_010
    by (simp add: dear_final_def wrap_final_def)
qed

section \<open>The best cost and the local bounds\<close>

lemma Search_body_locals:
  assumes "Search_body n mat (b, l, s) = Some (b', l', s')"
  shows "cost b' \<le> cost b \<and> (cost b' < cost b \<longrightarrow> cost l' = cost b') \<and> (cost b' = cost b \<longrightarrow> l' = l)"
proof -
  obtain t cty cst s1 where p: "Pop s = Some (t, cty, cst, s1)"
    using assms by (auto simp: Search_body_def split: option.splits)
  let ?t1 = "t\<lparr>cities := (cities t)[nat (count t) := cty], cost := int_add (cost t) cst,
                count := count t + 1\<rparr>"
  show ?thesis
  proof (cases "count ?t1 = n")
    case True
    then have "(b', l') = Check_best_tour n mat cty ?t1 (b, l)"
      using assms p by (auto simp: Search_body_def Let_def split: if_splits prod.splits)
    then show ?thesis by (auto simp: Check_best_tour_cases split: if_splits)
  next
    case False
    then have "b' = b \<and> l' = l"
      using assms p by (auto simp: Search_body_def Let_def split: if_splits prod.splits)
    then show ?thesis by simp
  qed
qed

lemma worker_step_locals:
  assumes "worker_step n thread_count mat garbage r (b, g, wk) wake_call (b', g', wk')"
    and "cost b \<le> INFINITY" and "cost b \<le> cost (w_local_best wk)"
    and "w_pc wk = At_start \<longrightarrow> w_local_best wk = initial_local_best"
  shows "cost b' \<le> cost b \<and> cost b' \<le> cost (w_local_best wk') \<and>
         (cost b' < cost b \<longrightarrow> cost (w_local_best wk') = cost b') \<and>
         (cost b' = cost b \<longrightarrow> w_local_best wk' = w_local_best wk) \<and> w_pc wk' \<noteq> At_start"
  using assms(1)
proof (cases rule: worker_step.cases)
  case starts
  then show ?thesis using assms(2,4) by (simp add: initial_local_best_def)
next
  case (returns view ret s')
  then show ?thesis using assms(3) by simp
next
  case (blocks view)
  then show ?thesis using assms(3) by simp
next
  case (resumes ret s')
  then show ?thesis using assms(3) by simp
next
  case (iterates local_best' s')
  then show ?thesis
    using Search_body_locals[of n mat b "w_local_best wk" "w_stack wk" b' local_best' s'] assms(3) by auto
qed

lemma wake_up_local:
  "w_local_best (wake_up wk) = w_local_best wk" "(w_pc (wake_up wk) = At_start) = (w_pc wk = At_start)"
  by (auto simp: wake_up_def)

lemma step_locals:
  assumes "bounds_ok \<sigma>" "step n thread_count mat garbage \<sigma> \<sigma>'"
  shows "length (sys_workers \<sigma>') = length (sys_workers \<sigma>) \<and>
         cost (sys_best \<sigma>') \<le> cost (sys_best \<sigma>) \<and>
         (\<exists>r < length (sys_workers \<sigma>).
            (\<forall>v < length (sys_workers \<sigma>). v \<noteq> r \<longrightarrow>
               w_local_best (sys_workers \<sigma>' ! v) = w_local_best (sys_workers \<sigma> ! v)) \<and>
            (cost (sys_best \<sigma>') < cost (sys_best \<sigma>) \<longrightarrow>
               cost (w_local_best (sys_workers \<sigma>' ! r)) = cost (sys_best \<sigma>')) \<and>
            (cost (sys_best \<sigma>') = cost (sys_best \<sigma>) \<longrightarrow>
               w_local_best (sys_workers \<sigma>' ! r) = w_local_best (sys_workers \<sigma> ! r))) \<and>
         bounds_ok \<sigma>'"
  using assms(2)
proof (cases rule: step.cases)
  case (of_worker r wake_call b' g' wk' ws')
  let ?b = "sys_best \<sigma>" and ?ws = "sys_workers \<sigma>"
  have B: "cost ?b \<le> INFINITY"
      "\<And>v. v < length ?ws \<Longrightarrow> cost ?b \<le> cost (w_local_best (?ws ! v))"
      "\<And>v. v < length ?ws \<Longrightarrow> w_pc (?ws ! v) = At_start \<longrightarrow> w_local_best (?ws ! v) = initial_local_best"
    using assms(1) unfolding bounds_ok_def by blast+
  have L: "cost b' \<le> cost ?b" "cost b' \<le> cost (w_local_best wk')"
      "cost b' < cost ?b \<longrightarrow> cost (w_local_best wk') = cost b'"
      "cost b' = cost ?b \<longrightarrow> w_local_best wk' = w_local_best (?ws ! r)" "w_pc wk' \<noteq> At_start"
    using worker_step_locals[OF of_worker(3) B(1) B(2)[OF of_worker(2)] B(3)[OF of_worker(2)]] by blast+
  note W = woken_by_same[OF of_worker(4)]
  have len: "length ws' = length ?ws" using W by simp
  have other: "w_local_best (ws' ! v) = w_local_best (?ws ! v)"
      "(w_pc (ws' ! v) = At_start) = (w_pc (?ws ! v) = At_start)" if "v < length ?ws" "v \<noteq> r" for v
  proof -
    have "?ws[r := wk'] ! v = ?ws ! v" using that by simp
    then have "ws' ! v = ?ws ! v \<or> ws' ! v = wake_up (?ws ! v)" using W that(1) by (metis length_list_update)
    then show "w_local_best (ws' ! v) = w_local_best (?ws ! v)"
        "(w_pc (ws' ! v) = At_start) = (w_pc (?ws ! v) = At_start)"
      using wake_up_local by auto
  qed
  have self: "w_local_best (ws' ! r) = w_local_best wk'" "(w_pc (ws' ! r) = At_start) = (w_pc wk' = At_start)"
  proof -
    have "?ws[r := wk'] ! r = wk'" using of_worker(2) by simp
    then have "ws' ! r = wk' \<or> ws' ! r = wake_up wk'" using W of_worker(2) by (metis length_list_update)
    then show "w_local_best (ws' ! r) = w_local_best wk'" "(w_pc (ws' ! r) = At_start) = (w_pc wk' = At_start)"
      using wake_up_local by auto
  qed
  have bo: "bounds_ok \<sigma>'"
    unfolding bounds_ok_def of_worker(1) system.select_convs
  proof (intro conjI allI impI)
    show "cost b' \<le> INFINITY" using L(1) B(1) by simp
    fix v assume v: "v < length ws'"
    show "cost b' \<le> cost (w_local_best (ws' ! v))"
      using v len L(1,2) B(2)[of v] other(1)[of v] self(1) by (cases "v = r") auto
    show "w_local_best (ws' ! v) = initial_local_best" if "w_pc (ws' ! v) = At_start"
      using that v len L(5) B(3)[of v] other[of v] self(2) by (cases "v = r") auto
  qed
  have "(\<forall>v < length ?ws. v \<noteq> r \<longrightarrow> w_local_best (ws' ! v) = w_local_best (?ws ! v)) \<and>
        (cost b' < cost ?b \<longrightarrow> cost (w_local_best (ws' ! r)) = cost b') \<and>
        (cost b' = cost ?b \<longrightarrow> w_local_best (ws' ! r) = w_local_best (?ws ! r))"
    using other(1) self(1) L(3,4) by simp
  then show ?thesis using len L(1) bo of_worker(1,2) by auto
next
  case (spurious r)
  let ?ws = "sys_workers \<sigma>"
  have same: "w_local_best (sys_workers \<sigma>' ! v) = w_local_best (?ws ! v)"
      "(w_pc (sys_workers \<sigma>' ! v) = At_start) = (w_pc (?ws ! v) = At_start)" if "v < length ?ws" for v
    using that spurious wake_up_local by (auto simp: nth_list_update)
  have "bounds_ok \<sigma>'"
    using assms(1) same spurious(1) unfolding bounds_ok_def by simp
  moreover have "length (sys_workers \<sigma>') = length ?ws" "sys_best \<sigma>' = sys_best \<sigma>"
    using spurious(1) by simp_all
  ultimately show ?thesis using same spurious(2) by auto
qed

lemma reachable_bounds:
  assumes "reachable n thread_count mat garbage \<sigma>"
  shows "bounds_ok \<sigma>"
  using assms
proof (induction rule: reachable.induct)
  case initially
  then show ?case
    by (simp add: bounds_ok_def initial_system_def initial_best_tour_def initial_worker_def
        initial_local_best_def)
next
  case (after_step \<sigma> \<sigma>')
  then show ?case using step_locals by blast
qed

text \<open>
  C7, as the code has it. A worker's \<^verbatim>\<open>local_best.cost\<close> is refreshed only by that worker's
  own commit. In every step of the program from a state it can reach, one worker \<open>r\<close>
  moves: the \<^verbatim>\<open>local_best\<close> of every other worker stays as it was; when the step lowers
  the best cost, the local bound of \<open>r\<close> is the new best cost; when it does not, the
  \<^verbatim>\<open>local_best\<close> of \<open>r\<close> stays as it was too; and every local bound is at or above the
  best cost afterwards.
\<close>

theorem local_bound_refreshed_by_own_commit:
  assumes "reachable n thread_count mat garbage \<sigma>" and "step n thread_count mat garbage \<sigma> \<sigma>'"
  shows "length (sys_workers \<sigma>') = length (sys_workers \<sigma>) \<and>
         (\<exists>r < length (sys_workers \<sigma>).
            (\<forall>v < length (sys_workers \<sigma>). v \<noteq> r \<longrightarrow>
               w_local_best (sys_workers \<sigma>' ! v) = w_local_best (sys_workers \<sigma> ! v)) \<and>
            (cost (sys_best \<sigma>') < cost (sys_best \<sigma>) \<longrightarrow>
               cost (w_local_best (sys_workers \<sigma>' ! r)) = cost (sys_best \<sigma>')) \<and>
            (cost (sys_best \<sigma>') = cost (sys_best \<sigma>) \<longrightarrow>
               w_local_best (sys_workers \<sigma>' ! r) = w_local_best (sys_workers \<sigma> ! r))) \<and>
         (\<forall>v < length (sys_workers \<sigma>).
            cost (sys_best \<sigma>') \<le> cost (w_local_best (sys_workers \<sigma>' ! v)))"
proof -
  note S = step_locals[OF reachable_bounds[OF assms(1)] assms(2)]
  then have "bounds_ok \<sigma>'" by blast
  then have "\<forall>v < length (sys_workers \<sigma>). cost (sys_best \<sigma>') \<le> cost (w_local_best (sys_workers \<sigma>' ! v))"
    using S unfolding bounds_ok_def by simp
  then show ?thesis using S by blast
qed

theorem local_bound_refreshed_by_own_commit_witness:
  "reachable 3 2 three_cities garbage_0 before_commit \<and>
   step 3 2 three_cities garbage_0 before_commit after_commit \<and>
   cost (sys_best after_commit) < cost (sys_best before_commit) \<and>
   cost (w_local_best (sys_workers after_commit ! 0)) = cost (sys_best after_commit) \<and>
   w_local_best (sys_workers after_commit ! 1) = w_local_best (sys_workers before_commit ! 1) \<and>
   cost (sys_best after_commit) \<le> cost (w_local_best (sys_workers after_commit ! 1))"
proof -
  note T = local_bound_refreshed_by_own_commit[OF before_commit_reachable commit_step]
  have "cost (sys_best after_commit) \<le> cost (w_local_best (sys_workers after_commit ! 1))"
    using T by (simp add: before_commit_def)
  then show ?thesis
    using before_commit_reachable commit_step by (simp add: before_commit_def after_commit_def)
qed

text \<open>
  C7 as stated fails. Three cities, two threads: worker 0 completes the tour \<open>0, 1, 2, 0\<close>
  and lowers the best cost from \<^verbatim>\<open>INFINITY\<close> to 10; the local bound of worker 1 is still
  \<^verbatim>\<open>INFINITY\<close>.
\<close>

theorem local_bound_stale_counterexample:
  "reachable 3 2 three_cities garbage_0 before_commit \<and>
   step 3 2 three_cities garbage_0 before_commit after_commit \<and>
   cost (sys_best before_commit) = 1000000 \<and> cost (sys_best after_commit) = 10 \<and>
   cost (w_local_best (sys_workers after_commit ! 1)) = 1000000"
  using before_commit_reachable commit_step by (simp add: before_commit_def after_commit_def)

lemma step_best_cost_le:
  assumes "step n thread_count mat garbage \<sigma> \<sigma>'"
  shows "cost (sys_best \<sigma>') \<le> cost (sys_best \<sigma>)"
  using assms
proof (cases rule: step.cases)
  case (of_worker r wake_call b' g' wk' ws')
  from of_worker(3) have "cost b' \<le> cost (sys_best \<sigma>)"
  proof (cases rule: worker_step.cases)
    case (iterates local_best' s')
    then show ?thesis using Search_body_locals by blast
  qed simp_all
  then show ?thesis using of_worker(1) by simp
next
  case (spurious r)
  then show ?thesis by simp
qed

text \<open>
  C8. The best cost starts at \<^verbatim>\<open>INFINITY\<close>. No step of the program, of any worker and under
  any interleaving, leaves it above its value before the step, so it never exceeds
  \<^verbatim>\<open>INFINITY\<close>; and \<^verbatim>\<open>Check_best_tour\<close>, the only code that writes it, leaves it at or below
  its value before the call.
\<close>

theorem best_cost_non_increasing:
  "cost (sys_best (initial_system n thread_count)) = INFINITY \<and>
   (step n thread_count mat garbage \<sigma> \<sigma>' \<longrightarrow> cost (sys_best \<sigma>') \<le> cost (sys_best \<sigma>)) \<and>
   (reachable n thread_count mat garbage \<sigma> \<longrightarrow> cost (sys_best \<sigma>) \<le> INFINITY) \<and>
   cost (fst (Check_best_tour n mat cty tour_p (best_tour, local_best))) \<le> cost best_tour"
proof -
  have "cost (sys_best (initial_system n thread_count)) = INFINITY"
    by (simp add: initial_system_def initial_best_tour_def)
  moreover have "reachable n thread_count mat garbage \<sigma> \<longrightarrow> cost (sys_best \<sigma>) \<le> INFINITY"
    using reachable_bounds unfolding bounds_ok_def by blast
  moreover have "cost (fst (Check_best_tour n mat cty tour_p (best_tour, local_best))) \<le> cost best_tour"
    by (simp add: Check_best_tour_cases)
  ultimately show ?thesis using step_best_cost_le by blast
qed

theorem best_cost_non_increasing_witness:
  "step 3 2 three_cities garbage_0 before_commit after_commit \<and>
   reachable 3 2 three_cities garbage_0 after_commit \<and>
   cost (sys_best (initial_system 3 2)) = 1000000 \<and>
   cost (sys_best before_commit) = 1000000 \<and> cost (sys_best after_commit) = 10 \<and>
   cost (sys_best after_commit) \<le> cost (sys_best before_commit) \<and>
   cost (sys_best after_commit) \<le> INFINITY"
proof -
  have r: "reachable 3 2 three_cities garbage_0 after_commit"
    using reachable.after_step[OF before_commit_reachable commit_step] .
  note T = best_cost_non_increasing[of 3 2 three_cities garbage_0 before_commit after_commit]
  have "cost (sys_best after_commit) \<le> cost (sys_best before_commit)" using T commit_step by blast
  moreover have "cost (sys_best after_commit) \<le> INFINITY"
    using best_cost_non_increasing[of 3 2 three_cities garbage_0 after_commit] r by blast
  moreover have "cost (sys_best (initial_system 3 2)) = 1000000"
    using T by (simp add: INFINITY_def)
  ultimately show ?thesis
    using commit_step r by (simp add: before_commit_def after_commit_def)
qed

end
